theory Spec2Isabelle
  imports Main
begin

section \<open>Strings of the host language\<close>

text \<open>
  A JavaScript string is a sequence of UTF-16 code units. A code unit is modelled as a
  natural number (its value, below 65536 for every real string), a string as the list of
  its code units, so that \<open>length\<close> is \<open>text.length\<close> and \<open>s ! i\<close> is \<open>text[i]\<close>.
\<close>

type_synonym jschar = nat
type_synonym jsstring = "jschar list"

text \<open>An ASCII literal of the source, written as an Isabelle string.\<close>

definition js :: "string \<Rightarrow> jsstring" where
  "js s = map of_char s"

definition DQUOTE :: jschar where "DQUOTE = 0x22"
definition COMMA :: jschar where "COMMA = 0x2C"
definition LF :: jschar where "LF = 0x0A"
definition CR :: jschar where "CR = 0x0D"

text \<open>
  \<open>String.prototype.trim\<close> removes the code units of WhiteSpace and LineTerminator
  (ECMAScript): TAB, LF, VT, FF, CR, SPACE, NBSP, U+1680, U+2000 to U+200A, U+2028,
  U+2029, U+202F, U+205F, U+3000 and U+FEFF.
\<close>

definition is_js_space :: "jschar \<Rightarrow> bool" where
  "is_js_space c \<longleftrightarrow>
     (0x09 \<le> c \<and> c \<le> 0x0D) \<or> c = 0x20 \<or> c = 0xA0 \<or> c = 0x1680 \<or>
     (0x2000 \<le> c \<and> c \<le> 0x200A) \<or> c = 0x2028 \<or> c = 0x2029 \<or> c = 0x202F \<or>
     c = 0x205F \<or> c = 0x3000 \<or> c = 0xFEFF"

definition trim :: "jsstring \<Rightarrow> jsstring" where
  "trim s = rev (dropWhile is_js_space (rev (dropWhile is_js_space s)))"

text \<open>\<open>Array.prototype.join\<close> on an array of strings.\<close>

fun join :: "jsstring \<Rightarrow> jsstring list \<Rightarrow> jsstring" where
  "join sep [] = []"
| "join sep [x] = x"
| "join sep (x # y # ys) = x @ sep @ join sep (y # ys)"

section \<open>The tabular parser: \<open>parseCSV\<close>\<close>

text \<open>
  The loop of \<open>parseCSV\<close> keeps four variables: the rows pushed so far, the row and
  the cell under construction, and the quoting flag.
\<close>

record scan_state =
  result :: "jsstring list list"
  row :: "jsstring list"
  cell :: jsstring
  inQuotes :: bool

definition scan_init :: scan_state where
  "scan_init = \<lparr>result = [], row = [], cell = [], inQuotes = False\<rparr>"

text \<open>
  The end of a row (source lines 44 to 46): the trimmed cell is pushed on the row, the
  row is pushed on the result under the test the source writes (which the push before it
  makes always true), and row and cell start again.
\<close>

definition end_row :: "scan_state \<Rightarrow> scan_state" where
  "end_row st =
     (let row' = row st @ [trim (cell st)];
          result' = (if length row' > 0 \<or> cell st \<noteq> [] then result st @ [row'] else result st)
      in st\<lparr>result := result', row := [], cell := []\<rparr>)"

text \<open>
  The \<open>for\<close> loop over the text: the list is the text from index \<open>i\<close> on, its head
  is \<open>char\<close>, the head of its tail is \<open>nextChar\<close> (\<open>undefined\<close> at the end of the
  text, which equals neither a quote nor a newline). The branches are the source's, in the
  source's order; \<open>i++\<close> inside a branch drops one more code unit.
\<close>

fun scan :: "scan_state \<Rightarrow> jsstring \<Rightarrow> scan_state" where
  "scan st [] = st"
| "scan st (c # cs) =
     (if inQuotes st \<and> c = DQUOTE \<and> (cs \<noteq> [] \<and> hd cs = DQUOTE)
        then scan (st\<lparr>cell := cell st @ [DQUOTE]\<rparr>) (tl cs)
      else if c = DQUOTE
        then scan (st\<lparr>inQuotes := \<not> inQuotes st\<rparr>) cs
      else if \<not> inQuotes st \<and> c = COMMA
        then scan (st\<lparr>row := row st @ [trim (cell st)], cell := []\<rparr>) cs
      else if \<not> inQuotes st \<and> (c = LF \<or> c = CR)
        then scan (end_row st) (if c = CR \<and> (cs \<noteq> [] \<and> hd cs = LF) then tl cs else cs)
      else scan (st\<lparr>cell := cell st @ [c]\<rparr>) cs)"

text \<open>After the loop (source line 49): a pending cell or row is flushed.\<close>

definition flush :: "scan_state \<Rightarrow> jsstring list list" where
  "flush st =
     (if cell st \<noteq> [] \<or> length (row st) > 0
        then result st @ [row st @ [trim (cell st)]]
      else result st)"

text \<open>The filter of source line 50.\<close>

definition keep_row :: "jsstring list \<Rightarrow> bool" where
  "keep_row r \<longleftrightarrow> length r > 0 \<and> list_ex (\<lambda>c. c \<noteq> []) r"

definition parseCSV :: "jsstring \<Rightarrow> jsstring list list" where
  "parseCSV text = (if text = [] then [] else filter keep_row (flush (scan scan_init text)))"

section \<open>Column selectors and index lookup\<close>

text \<open>
  The fields \<open>sourceValue\<close>, \<open>sourceKeyIdx\<close> and the slots of \<open>optionIndices\<close> have
  the type \<open>number | string\<close>: the empty string when nothing is selected, a number when
  the suggestion service filled the slot, the value of a \<open>select\<close> element (a decimal
  string) when the user chose a column. Numbers are modelled as integers: they are column
  positions.
\<close>

datatype numstr = S jsstring | N int

definition is_digit :: "jschar \<Rightarrow> bool" where
  "is_digit c \<longleftrightarrow> 0x30 \<le> c \<and> c \<le> 0x39"

definition digits_val :: "jsstring \<Rightarrow> nat" where
  "digits_val ds = foldl (\<lambda>a c. 10 * a + (c - 0x30)) 0 ds"

definition radix_digit :: "nat \<Rightarrow> jschar \<Rightarrow> nat option" where
  "radix_digit b c =
     (let v = (if 0x30 \<le> c \<and> c \<le> 0x39 then c - 0x30
               else if 0x61 \<le> c \<and> c \<le> 0x66 then c - 0x61 + 10
               else if 0x41 \<le> c \<and> c \<le> 0x46 then c - 0x41 + 10
               else 16)
      in if v < b then Some v else None)"

definition radix_val :: "nat \<Rightarrow> jsstring \<Rightarrow> nat" where
  "radix_val b ds = foldl (\<lambda>a c. b * a + (case radix_digit b c of Some v \<Rightarrow> v | None \<Rightarrow> 0)) 0 ds"

text \<open>
  A Number is a double: the value of a numeric literal is rounded to the nearest double,
  a tie going to the even significand, and becomes infinite from \<open>2 ^ 1024\<close> on. The
  rounding is computed on the fraction \<open>a / b\<close> of two naturals, \<open>b\<close> positive.

  \<open>bit_length a\<close> is the number of binary digits of \<open>a\<close>, and
  \<open>binary_exponent a b\<close> the \<open>e\<close> with \<open>2 ^ e \<le> a / b < 2 ^ (e + 1)\<close> for positive
  \<open>a\<close>: it is the difference of the two bit lengths or one less.
\<close>

fun bit_length :: "nat \<Rightarrow> nat" where
  "bit_length n = (if n = 0 then 0 else Suc (bit_length (n div 2)))"

declare bit_length.simps [simp del]

definition at_least_pow2 :: "nat \<Rightarrow> nat \<Rightarrow> int \<Rightarrow> bool" where
  "at_least_pow2 a b e \<longleftrightarrow> (if 0 \<le> e then b * 2 ^ nat e \<le> a else b \<le> a * 2 ^ nat (- e))"

definition binary_exponent :: "nat \<Rightarrow> nat \<Rightarrow> int" where
  "binary_exponent a b =
     (let e = int (bit_length a) - int (bit_length b)
      in if at_least_pow2 a b e then e else e - 1)"

text \<open>The integer nearest to \<open>a / b\<close>, the even one of two that are equally near.\<close>

definition round_half_even :: "nat \<Rightarrow> nat \<Rightarrow> nat" where
  "round_half_even a b =
     (let q = a div b; r = a mod b
      in if 2 * r < b then q else if b < 2 * r then q + 1 else if even q then q else q + 1)"

text \<open>
  The doubles next to \<open>a / b\<close> are the multiples of \<open>2 ^ t\<close>, where \<open>t\<close> is the binary
  exponent minus the 52 fraction bits, and \<open>-1074\<close> in the subnormal range; the double
  for \<open>a / b\<close> is \<open>significand a b t * 2 ^ t\<close>.
\<close>

definition ulp_exponent :: "nat \<Rightarrow> nat \<Rightarrow> int" where
  "ulp_exponent a b = max (binary_exponent a b) (- 1022) - 52"

definition significand :: "nat \<Rightarrow> nat \<Rightarrow> int \<Rightarrow> nat" where
  "significand a b t =
     (if 0 \<le> t then round_half_even a (b * 2 ^ nat t) else round_half_even (a * 2 ^ nat (- t)) b)"

text \<open>
  The double for \<open>a / b\<close> when it is an integer, \<open>None\<close> when it is infinite or has a
  fraction.
\<close>

definition double_integer :: "nat \<Rightarrow> nat \<Rightarrow> nat option" where
  "double_integer a b =
     (if a = 0 then Some 0
      else
        let t = ulp_exponent a b; n = significand a b t
        in if 0 \<le> t then (if n * 2 ^ nat t < 2 ^ 1024 then Some (n * 2 ^ nat t) else None)
           else if n mod 2 ^ nat (- t) = 0 then Some (n div 2 ^ nat (- t))
           else None)"

text \<open>
  The Number for the decimal literal of value \<open>m * 10 ^ k\<close> when it is an integer,
  \<open>None\<close> otherwise.
\<close>

definition scale10 :: "nat \<Rightarrow> int \<Rightarrow> int option" where
  "scale10 m k =
     map_option int
       (if 0 \<le> k then double_integer (m * 10 ^ nat k) 1 else double_integer m (10 ^ nat (- k)))"

text \<open>
  The exponent part of a decimal literal: nothing, or \<open>e\<close> or \<open>E\<close>, an optional sign
  and at least one digit up to the end of the string. \<open>None\<close> when the text is neither.
\<close>

definition exponent_part :: "jsstring \<Rightarrow> int option" where
  "exponent_part r =
     (case r of
        [] \<Rightarrow> Some 0
      | e # r1 \<Rightarrow>
          if e = 0x65 \<or> e = 0x45 then
            (let neg = (r1 \<noteq> [] \<and> hd r1 = 0x2D);
                 r2 = (if r1 \<noteq> [] \<and> (hd r1 = 0x2B \<or> hd r1 = 0x2D) then tl r1 else r1)
             in if r2 \<noteq> [] \<and> list_all is_digit r2
                then Some (if neg then - int (digits_val r2) else int (digits_val r2))
                else None)
          else None)"

text \<open>
  An unsigned decimal literal of the grammar of \<open>Number(string)\<close>: digits, an optional
  fraction (\<open>5.\<close>, \<open>.5\<close> and \<open>5.5\<close> are literals, \<open>.\<close> is not) and an optional
  exponent. The result is the Number of the literal when that is an integer, \<open>None\<close>
  when the text is not a literal or its Number is no integer.
\<close>

definition unsigned_decimal :: "jsstring \<Rightarrow> int option" where
  "unsigned_decimal s =
     (let ip = takeWhile is_digit s;
          r1 = dropWhile is_digit s;
          dot = (r1 \<noteq> [] \<and> hd r1 = 0x2E);
          fp = (if dot then takeWhile is_digit (tl r1) else []);
          r2 = (if dot then dropWhile is_digit (tl r1) else r1)
      in if ip = [] \<and> fp = [] then None
         else (case exponent_part r2 of
                 None \<Rightarrow> None
               | Some ex \<Rightarrow> scale10 (digits_val (ip @ fp)) (ex - int (length fp))))"

text \<open>
  \<open>Number(s)\<close> for a string, as far as indexing needs it: \<open>Some n\<close> when the result
  is the integer \<open>n\<close>, \<open>None\<close> when it is \<open>NaN\<close>, infinite or not an integer (no
  such number is the index of an array element). Surrounding white space is dropped, the
  empty string is 0, a literal with the prefix \<open>0x\<close>, \<open>0o\<close> or \<open>0b\<close> is read in its
  radix, anything else is a signed decimal literal or \<open>NaN\<close>. The value of a literal is
  rounded to a double: \<open>1e-400\<close> is 0, \<open>0.99999999999999999999\<close> is 1,
  \<open>9007199254740993\<close> is 9007199254740992 and \<open>1e400\<close> is infinite. Minus zero is
  the index 0, as \<open>row[-0]\<close> is \<open>row[0]\<close>.
\<close>

definition StringToNumber :: "jsstring \<Rightarrow> int option" where
  "StringToNumber s =
     (let t = trim s in
      if t = [] then Some 0
      else if length t \<ge> 2 \<and> hd t = 0x30 \<and> t ! 1 \<in> {0x78, 0x58, 0x6F, 0x4F, 0x62, 0x42} then
        (let b = (if t ! 1 \<in> {0x78, 0x58} then 16 else if t ! 1 \<in> {0x6F, 0x4F} then 8 else 2);
             ds = drop 2 t
         in if ds \<noteq> [] \<and> list_all (\<lambda>c. radix_digit b c \<noteq> None) ds
            then map_option int (double_integer (radix_val b ds) 1) else None)
      else if hd t = 0x2D then map_option uminus (unsigned_decimal (tl t))
      else if hd t = 0x2B then unsigned_decimal (tl t)
      else unsigned_decimal t)"

definition Number_js :: "numstr \<Rightarrow> int option" where
  "Number_js v = (case v of S s \<Rightarrow> StringToNumber s | N n \<Rightarrow> Some n)"

text \<open>
  \<open>row[Number(v)] || ''\<close>: the cell when the number is the index of an element of the
  row, the empty string when the read gives \<open>undefined\<close> (or an empty cell).
\<close>

definition cellAt :: "jsstring list \<Rightarrow> int option \<Rightarrow> jsstring" where
  "cellAt r n =
     (case n of
        None \<Rightarrow> []
      | Some i \<Rightarrow> if 0 \<le> i \<and> i < int (length r) then r ! nat i else [])"

section \<open>Key normalization\<close>

text \<open>
  \<open>String.prototype.toUpperCase\<close> maps the code points of the string, a surrogate pair
  being one code point and a lone surrogate staying as it is. The mapping is written out
  for Basic Latin and for the block of Halfwidth and Fullwidth Forms, the only code points
  the resolver looks at: there the small letters have the capital letter 0x20 below and
  nothing else changes. The Unicode case mapping of every other code point is not part of
  the repository and is a parameter \<open>ucase\<close>: \<open>ucase cp\<close> is the list of the code
  points of the uppercase of \<open>cp\<close> (one to three of them, \<open>[cp]\<close> where there is none).
\<close>

definition upper_cp :: "(nat \<Rightarrow> nat list) \<Rightarrow> nat \<Rightarrow> nat list" where
  "upper_cp ucase cp =
     (if 0x61 \<le> cp \<and> cp \<le> 0x7A then [cp - 0x20]
      else if cp < 0x80 then [cp]
      else if 0xFF41 \<le> cp \<and> cp \<le> 0xFF5A then [cp - 0x20]
      else if 0xFF00 \<le> cp \<and> cp \<le> 0xFFEF then [cp]
      else ucase cp)"

definition is_high_surrogate :: "jschar \<Rightarrow> bool" where
  "is_high_surrogate c \<longleftrightarrow> 0xD800 \<le> c \<and> c \<le> 0xDBFF"

definition is_low_surrogate :: "jschar \<Rightarrow> bool" where
  "is_low_surrogate c \<longleftrightarrow> 0xDC00 \<le> c \<and> c \<le> 0xDFFF"

text \<open>The UTF-16 code units of a code point, and the code point of a surrogate pair.\<close>

definition utf16 :: "nat \<Rightarrow> jsstring" where
  "utf16 cp =
     (if cp < 0x10000 then [cp]
      else [0xD800 + (cp - 0x10000) div 0x400, 0xDC00 + (cp - 0x10000) mod 0x400])"

definition pair_cp :: "jschar \<Rightarrow> jschar \<Rightarrow> nat" where
  "pair_cp h l = 0x10000 + (h - 0xD800) * 0x400 + (l - 0xDC00)"

fun toUpperCase :: "(nat \<Rightarrow> nat list) \<Rightarrow> jsstring \<Rightarrow> jsstring" where
  "toUpperCase ucase [] = []"
| "toUpperCase ucase (c # cs) =
     (if is_high_surrogate c \<and> cs \<noteq> [] \<and> is_low_surrogate (hd cs)
        then concat (map utf16 (upper_cp ucase (pair_cp c (hd cs)))) @ toUpperCase ucase (tl cs)
      else if is_high_surrogate c \<or> is_low_surrogate c
        then c # toUpperCase ucase cs
      else concat (map utf16 (upper_cp ucase c)) @ toUpperCase ucase cs)"

text \<open>
  The replacement of source line 56: every code unit of the character class of the
  regular expression, U+FF21 to U+FF3A (fullwidth capital letters) and U+FF10 to U+FF19
  (fullwidth digits), becomes the code unit 0xFEE0 below.
\<close>

definition in_fullwidth_class :: "jschar \<Rightarrow> bool" where
  "in_fullwidth_class c \<longleftrightarrow> (0xFF21 \<le> c \<and> c \<le> 0xFF3A) \<or> (0xFF10 \<le> c \<and> c \<le> 0xFF19)"

definition normalizeKey :: "(nat \<Rightarrow> nat list) \<Rightarrow> jsstring \<Rightarrow> jsstring" where
  "normalizeKey ucase rawKey =
     map (\<lambda>c. if in_fullwidth_class c then c - 0xFEE0 else c) (toUpperCase ucase rawKey)"

section \<open>The field model\<close>

datatype FieldSourceType = Csv_column | Constant | Filename | Smart_answer

datatype OutputMode = Key | Content

record AnswerConfig =
  sourceKeyIdx :: numstr
  outputMode :: OutputMode
  optionIndices :: "numstr list"

record ExportField =
  fid :: jsstring
  headerName :: jsstring
  ftype :: FieldSourceType
  sourceValue :: numstr
  answerConfig :: "AnswerConfig option"

section \<open>The smart-answer resolver: \<open>processSmartAnswer\<close>\<close>

text \<open>
  Source lines 58 to 60: the position the key decodes to, -1 when it decodes to none. The
  tests are \<open>/^[A-Z]$/\<close> and \<open>/^[1-9]$/\<close> (exactly one code unit of the range);
  \<open>parseInt\<close> of one digit is its value.
\<close>

definition targetIdx :: "jsstring \<Rightarrow> int" where
  "targetIdx key =
     (if length key = 1 \<and> 0x41 \<le> hd key \<and> hd key \<le> 0x5A then int (hd key) - 65
      else if length key = 1 \<and> 0x31 \<le> hd key \<and> hd key \<le> 0x39 then int (hd key - 0x30) - 1
      else - 1)"

definition processSmartAnswer ::
  "(nat \<Rightarrow> nat list) \<Rightarrow> jsstring list \<Rightarrow> AnswerConfig option \<Rightarrow> jsstring" where
  "processSmartAnswer ucase r config =
     (case config of
        None \<Rightarrow> []
      | Some cfg \<Rightarrow>
          if sourceKeyIdx cfg = S [] then []
          else
            let rawKey = trim (cellAt r (Number_js (sourceKeyIdx cfg)));
                key = normalizeKey ucase rawKey
            in if outputMode cfg = Key then key
               else
                 let t = targetIdx key
                 in if 0 \<le> t \<and> t < int (length (optionIndices cfg)) then
                      (let colIdx = optionIndices cfg ! nat t
                       in if colIdx \<noteq> S [] then cellAt r (Number_js colIdx) else rawKey)
                    else rawKey)"

section \<open>The emitter: \<open>generateCSV\<close>\<close>

text \<open>\<open>Number.prototype.toString\<close> of an integer (below \<open>10 ^ 21\<close>): its decimal digits.\<close>

fun nat_digits :: "nat \<Rightarrow> jsstring" where
  "nat_digits n = (if n < 10 then [0x30 + n] else nat_digits (n div 10) @ [0x30 + n mod 10])"

declare nat_digits.simps [simp del]

definition int_to_string :: "int \<Rightarrow> jsstring" where
  "int_to_string i = (if i < 0 then 0x2D # nat_digits (nat (- i)) else nat_digits (nat i))"

definition String_js :: "numstr \<Rightarrow> jsstring" where
  "String_js v = (case v of S s \<Rightarrow> s | N n \<Rightarrow> int_to_string n)"

text \<open>Source lines 73 to 77: the value of one output column for one row.\<close>

definition fieldValue ::
  "(nat \<Rightarrow> nat list) \<Rightarrow> ExportField \<Rightarrow> jsstring list \<Rightarrow> jsstring \<Rightarrow> jsstring" where
  "fieldValue ucase field r fname =
     (case ftype field of
        Filename \<Rightarrow> fname
      | Constant \<Rightarrow> String_js (sourceValue field)
      | Csv_column \<Rightarrow> cellAt r (Number_js (sourceValue field))
      | Smart_answer \<Rightarrow> processSmartAnswer ucase r (answerConfig field))"

text \<open>Source line 78: \<open>val.replace(/"/g, '""')\<close> between two double quotes.\<close>

definition replace_quotes :: "jsstring \<Rightarrow> jsstring" where
  "replace_quotes val = concat (map (\<lambda>c. if c = DQUOTE then [DQUOTE, DQUOTE] else [c]) val)"

definition quoteCell :: "jsstring \<Rightarrow> jsstring" where
  "quoteCell val = [DQUOTE] @ replace_quotes val @ [DQUOTE]"

text \<open>
  \<open>csvRows\<close> starts as the header line; the \<open>forEach\<close> over \<open>sourceData.slice(1)\<close>
  pushes one line for each row; the lines are joined by a newline.
\<close>

definition outputRow ::
  "(nat \<Rightarrow> nat list) \<Rightarrow> ExportField list \<Rightarrow> jsstring \<Rightarrow> jsstring list \<Rightarrow> jsstring list" where
  "outputRow ucase config fname r = map (\<lambda>field. quoteCell (fieldValue ucase field r fname)) config"

definition generateCSV ::
  "(nat \<Rightarrow> nat list) \<Rightarrow> ExportField list \<Rightarrow> jsstring list list \<Rightarrow> jsstring \<Rightarrow> jsstring" where
  "generateCSV ucase config sourceData fname =
     (let headers = map headerName config;
          csvRows = foldl (\<lambda>rows r. rows @ [join [COMMA] (outputRow ucase config fname r)])
                      [join [COMMA] headers] (drop 1 sourceData)
      in join [LF] csvRows)"

section \<open>The configuration codec: JSON values and their text\<close>

text \<open>
  What \<open>JSON.parse\<close> returns and \<open>JSON.stringify\<close> prints. An object is the list of
  its properties in the order in which JavaScript enumerates them. A number is an integer
  (\<open>JNum\<close>) or, when it is not one, the decimal \<open>m / 10 ^ d\<close> with \<open>d > 0\<close> and
  \<open>m\<close> not divisible by 10 (\<open>JDec m d\<close>); numbers are exact decimals, the rounding to
  a double of a literal with more digits than a double holds is not modelled.
\<close>

datatype json =
    JNull
  | JBool bool
  | JNum int
  | JDec int nat
  | JStr jsstring
  | JArr "json list"
  | JObj "(jsstring \<times> json) list"

definition BACKSLASH :: jschar where "BACKSLASH = 0x5C"
definition SPACE :: jschar where "SPACE = 0x20"
definition COLON :: jschar where "COLON = 0x3A"
definition LBRACKET :: jschar where "LBRACKET = 0x5B"
definition RBRACKET :: jschar where "RBRACKET = 0x5D"
definition LBRACE :: jschar where "LBRACE = 0x7B"
definition RBRACE :: jschar where "RBRACE = 0x7D"

subsection \<open>\<open>JSON.stringify(value, null, 2)\<close>\<close>

definition hex_digit :: "nat \<Rightarrow> jschar" where
  "hex_digit n = (if n < 10 then 0x30 + n else 0x61 + (n - 10))"

definition hex4 :: "nat \<Rightarrow> jsstring" where
  "hex4 c = [hex_digit (c div 4096 mod 16), hex_digit (c div 256 mod 16),
             hex_digit (c div 16 mod 16), hex_digit (c mod 16)]"

text \<open>
  QuoteJSONString: the short escapes, a backslash, \<open>u\<close> and four hexadecimal digits for the other
  control characters and for a surrogate that is not part of a pair, every other code
  unit as it is.
\<close>

fun quote_chars :: "jsstring \<Rightarrow> jsstring" where
  "quote_chars [] = []"
| "quote_chars (c # cs) =
     (if c = 0x08 then [BACKSLASH, 0x62] @ quote_chars cs
      else if c = 0x09 then [BACKSLASH, 0x74] @ quote_chars cs
      else if c = 0x0A then [BACKSLASH, 0x6E] @ quote_chars cs
      else if c = 0x0C then [BACKSLASH, 0x66] @ quote_chars cs
      else if c = 0x0D then [BACKSLASH, 0x72] @ quote_chars cs
      else if c = DQUOTE then [BACKSLASH, DQUOTE] @ quote_chars cs
      else if c = BACKSLASH then [BACKSLASH, BACKSLASH] @ quote_chars cs
      else if c < 0x20 then [BACKSLASH, 0x75] @ hex4 c @ quote_chars cs
      else if is_high_surrogate c \<and> cs \<noteq> [] \<and> is_low_surrogate (hd cs)
        then c # hd cs # quote_chars (tl cs)
      else if is_high_surrogate c \<or> is_low_surrogate c
        then [BACKSLASH, 0x75] @ hex4 c @ quote_chars cs
      else c # quote_chars cs)"

definition quote_json :: "jsstring \<Rightarrow> jsstring" where
  "quote_json s = [DQUOTE] @ quote_chars s @ [DQUOTE]"

text \<open>
  \<open>Number.prototype.toString\<close> of the decimal \<open>m / 10 ^ d\<close>, \<open>m > 0\<close>: with \<open>k\<close>
  digits and the decimal point after \<open>n = k - d\<close> of them, the digits with the point
  inside when \<open>0 < n\<close>, behind \<open>0.\<close> and \<open>-n\<close> zeros when \<open>-6 < n \<le> 0\<close>, and in
  exponent notation otherwise.
\<close>

definition dec_to_string :: "nat \<Rightarrow> nat \<Rightarrow> jsstring" where
  "dec_to_string m d =
     (let ds = nat_digits m; k = length ds; n = int k - int d
      in if 0 < n then take (nat n) ds @ [0x2E] @ drop (nat n) ds
         else if - 6 < n then [0x30, 0x2E] @ replicate (nat (- n)) 0x30 @ ds
         else (if k = 1 then ds else [hd ds, 0x2E] @ tl ds) @ [0x65, 0x2D] @ nat_digits (nat (1 - n)))"

definition indent :: "nat \<Rightarrow> jsstring" where
  "indent n = replicate n SPACE"

text \<open>
  SerializeJSONProperty with the gap of two spaces; the first argument is the current
  indentation. An empty array or object is printed without a line break.
\<close>

fun stringify :: "nat \<Rightarrow> json \<Rightarrow> jsstring"
  and stringify_elements :: "nat \<Rightarrow> json list \<Rightarrow> jsstring"
  and stringify_members :: "nat \<Rightarrow> (jsstring \<times> json) list \<Rightarrow> jsstring" where
  "stringify ind JNull = js ''null''"
| "stringify ind (JBool b) = (if b then js ''true'' else js ''false'')"
| "stringify ind (JNum i) = int_to_string i"
| "stringify ind (JDec m d) =
     (if m < 0 then 0x2D # dec_to_string (nat (- m)) d else dec_to_string (nat m) d)"
| "stringify ind (JStr s) = quote_json s"
| "stringify ind (JArr []) = [LBRACKET, RBRACKET]"
| "stringify ind (JArr (v # vs)) =
     [LBRACKET, LF] @ indent (ind + 2) @ stringify_elements (ind + 2) (v # vs)
       @ [LF] @ indent ind @ [RBRACKET]"
| "stringify ind (JObj []) = [LBRACE, RBRACE]"
| "stringify ind (JObj (m # ms)) =
     [LBRACE, LF] @ indent (ind + 2) @ stringify_members (ind + 2) (m # ms)
       @ [LF] @ indent ind @ [RBRACE]"
| "stringify_elements ind [] = []"
| "stringify_elements ind [v] = stringify ind v"
| "stringify_elements ind (v # w # vs) =
     stringify ind v @ [COMMA, LF] @ indent ind @ stringify_elements ind (w # vs)"
| "stringify_members ind [] = []"
| "stringify_members ind [(k, v)] = quote_json k @ [COLON, SPACE] @ stringify ind v"
| "stringify_members ind ((k, v) # m # ms) =
     quote_json k @ [COLON, SPACE] @ stringify ind v @ [COMMA, LF] @ indent ind
       @ stringify_members ind (m # ms)"

definition JSON_stringify :: "json \<Rightarrow> jsstring" where
  "JSON_stringify v = stringify 0 v"

subsection \<open>\<open>JSON.parse\<close>\<close>

text \<open>
  \<open>JSON.parse\<close> throws a SyntaxError on a text that is not a JSON document. The parser
  below descends with a counter that bounds the number of nested calls; \<open>OutOfFuel\<close>
  is the value of a run that uses it up, which \<open>JSON_parse\<close> never does.
\<close>

datatype parse_error = SyntaxError | OutOfFuel

definition is_json_ws :: "jschar \<Rightarrow> bool" where
  "is_json_ws c \<longleftrightarrow> c = 0x20 \<or> c = 0x09 \<or> c = 0x0A \<or> c = 0x0D"

definition skip_ws :: "jsstring \<Rightarrow> jsstring" where
  "skip_ws s = dropWhile is_json_ws s"

definition is_hex :: "jschar \<Rightarrow> bool" where
  "is_hex c \<longleftrightarrow> radix_digit 16 c \<noteq> None"

definition unescape :: "jschar \<Rightarrow> jschar option" where
  "unescape e =
     (if e = DQUOTE then Some DQUOTE
      else if e = BACKSLASH then Some BACKSLASH
      else if e = 0x2F then Some 0x2F
      else if e = 0x62 then Some 0x08
      else if e = 0x66 then Some 0x0C
      else if e = 0x6E then Some 0x0A
      else if e = 0x72 then Some 0x0D
      else if e = 0x74 then Some 0x09
      else None)"

definition cons_result ::
  "jschar \<Rightarrow> parse_error + (jsstring \<times> jsstring) \<Rightarrow> parse_error + (jsstring \<times> jsstring)" where
  "cons_result c res = (case res of Inl e \<Rightarrow> Inl e | Inr (s, rest) \<Rightarrow> Inr (c # s, rest))"

text \<open>
  The characters of a string literal after its opening quote: the string and the text
  behind the closing quote.
\<close>

fun parse_chars :: "jsstring \<Rightarrow> parse_error + (jsstring \<times> jsstring)" where
  "parse_chars [] = Inl SyntaxError"
| "parse_chars (c # cs) =
     (if c = DQUOTE then Inr ([], cs)
      else if c = BACKSLASH then
        (case cs of
           [] \<Rightarrow> Inl SyntaxError
         | e # r \<Rightarrow>
             if e = 0x75 then
               (if 4 \<le> length r \<and> list_all is_hex (take 4 r)
                  then cons_result (radix_val 16 (take 4 r)) (parse_chars (drop 4 r))
                else Inl SyntaxError)
             else (case unescape e of
                     None \<Rightarrow> Inl SyntaxError
                   | Some ch \<Rightarrow> cons_result ch (parse_chars r)))
      else if c < 0x20 then Inl SyntaxError
      else cons_result c (parse_chars cs))"

text \<open>
  The number \<open>m * 10 ^ k\<close> with its sign: an integer when \<open>k\<close> is not negative or
  the division is exact, otherwise the decimal with its trailing zeros removed.
\<close>

fun strip_zeros :: "nat \<Rightarrow> nat \<Rightarrow> nat \<times> nat" where
  "strip_zeros m 0 = (m, 0)"
| "strip_zeros m (Suc d) = (if m mod 10 = 0 then strip_zeros (m div 10) d else (m, Suc d))"

definition make_number :: "bool \<Rightarrow> nat \<Rightarrow> int \<Rightarrow> json" where
  "make_number neg m k =
     (let sg = (\<lambda>i. if neg then - i else i :: int)
      in if 0 \<le> k then JNum (sg (int m * 10 ^ nat k))
         else if m = 0 then JNum 0
         else (case strip_zeros m (nat (- k)) of
                 (m', d) \<Rightarrow> if d = 0 then JNum (sg (int m')) else JDec (sg (int m')) d))"

text \<open>
  A number literal of JSON: an optional minus sign, \<open>0\<close> or digits without a leading
  zero, an optional fraction with at least one digit, an optional exponent with at least
  one digit. Each part returns what it read and the text behind it, \<open>None\<close> when a
  fraction or an exponent starts and has no digit.
\<close>

definition number_int :: "jsstring \<Rightarrow> jsstring \<times> jsstring" where
  "number_int s =
     (if s \<noteq> [] \<and> hd s = 0x30 then ([0x30], tl s)
      else (takeWhile is_digit s, dropWhile is_digit s))"

definition number_frac :: "jsstring \<Rightarrow> (jsstring \<times> jsstring) option" where
  "number_frac r =
     (if r \<noteq> [] \<and> hd r = 0x2E then
        (if takeWhile is_digit (tl r) = [] then None
         else Some (takeWhile is_digit (tl r), dropWhile is_digit (tl r)))
      else Some ([], r))"

definition number_exp :: "jsstring \<Rightarrow> (int \<times> jsstring) option" where
  "number_exp r =
     (if r \<noteq> [] \<and> (hd r = 0x65 \<or> hd r = 0x45) then
        (let r1 = tl r;
             neg = (r1 \<noteq> [] \<and> hd r1 = 0x2D);
             r2 = (if r1 \<noteq> [] \<and> (hd r1 = 0x2B \<or> hd r1 = 0x2D) then tl r1 else r1);
             ed = takeWhile is_digit r2
         in if ed = [] then None
            else Some (if neg then - int (digits_val ed) else int (digits_val ed),
                       dropWhile is_digit r2))
      else Some (0, r))"

definition parse_number :: "jsstring \<Rightarrow> parse_error + (json \<times> jsstring)" where
  "parse_number s =
     (let neg = (s \<noteq> [] \<and> hd s = 0x2D)
      in case number_int (if neg then tl s else s) of
           (ip, r1) \<Rightarrow>
             if ip = [] then Inl SyntaxError
             else (case number_frac r1 of
                     None \<Rightarrow> Inl SyntaxError
                   | Some (fp, r2) \<Rightarrow>
                       (case number_exp r2 of
                          None \<Rightarrow> Inl SyntaxError
                        | Some (e, r3) \<Rightarrow>
                            Inr (make_number neg (digits_val (ip @ fp)) (e - int (length fp)), r3))))"

text \<open>
  CreateDataProperty on the object under construction: a name the object has keeps its
  place and takes the new value; a new name that is an array index (the decimal digits of
  a number below \<open>2 ^ 32 - 1\<close>) goes among the array indices, in ascending order, before
  all other names; any other new name goes to the end.
\<close>

definition is_array_index :: "jsstring \<Rightarrow> bool" where
  "is_array_index k \<longleftrightarrow>
     k \<noteq> [] \<and> list_all is_digit k \<and> (length k = 1 \<or> hd k \<noteq> 0x30) \<and> digits_val k < 2 ^ 32 - 1"

fun insert_index :: "jsstring \<Rightarrow> json \<Rightarrow> (jsstring \<times> json) list \<Rightarrow> (jsstring \<times> json) list" where
  "insert_index k v [] = [(k, v)]"
| "insert_index k v ((k', v') # ps) =
     (if is_array_index k' \<and> digits_val k' < digits_val k
        then (k', v') # insert_index k v ps
      else (k, v) # (k', v') # ps)"

definition define_property ::
  "(jsstring \<times> json) list \<Rightarrow> jsstring \<times> json \<Rightarrow> (jsstring \<times> json) list" where
  "define_property ps kv =
     (case kv of (k, v) \<Rightarrow>
        if k \<in> fst ` set ps then map (\<lambda>(k', v'). if k' = k then (k', v) else (k', v')) ps
        else if is_array_index k then insert_index k v ps
        else ps @ [(k, v)])"

definition make_object :: "(jsstring \<times> json) list \<Rightarrow> json" where
  "make_object ms = JObj (foldl define_property [] ms)"

text \<open>
  A value, the elements of an array behind its opening bracket and the members of an
  object behind its opening brace. Each returns what it read and the text behind it.
\<close>

fun parse_value :: "nat \<Rightarrow> jsstring \<Rightarrow> parse_error + (json \<times> jsstring)"
  and parse_elements :: "nat \<Rightarrow> jsstring \<Rightarrow> parse_error + (json list \<times> jsstring)"
  and parse_members :: "nat \<Rightarrow> jsstring \<Rightarrow> parse_error + ((jsstring \<times> json) list \<times> jsstring)"
  where
  "parse_value 0 s = Inl OutOfFuel"
| "parse_value (Suc f) s =
     (case skip_ws s of
        [] \<Rightarrow> Inl SyntaxError
      | c # cs \<Rightarrow>
          if c = LBRACE then
            (case skip_ws cs of
               [] \<Rightarrow> Inl SyntaxError
             | d # ds \<Rightarrow>
                 if d = RBRACE then Inr (JObj [], ds)
                 else (case parse_members f (d # ds) of
                         Inl e \<Rightarrow> Inl e
                       | Inr (ms, r) \<Rightarrow> Inr (make_object ms, r)))
          else if c = LBRACKET then
            (case skip_ws cs of
               [] \<Rightarrow> Inl SyntaxError
             | d # ds \<Rightarrow>
                 if d = RBRACKET then Inr (JArr [], ds)
                 else (case parse_elements f (d # ds) of
                         Inl e \<Rightarrow> Inl e
                       | Inr (vs, r) \<Rightarrow> Inr (JArr vs, r)))
          else if c = DQUOTE then
            (case parse_chars cs of Inl e \<Rightarrow> Inl e | Inr (str, r) \<Rightarrow> Inr (JStr str, r))
          else if c = 0x2D \<or> is_digit c then parse_number (c # cs)
          else if take 4 (c # cs) = js ''true'' then Inr (JBool True, drop 4 (c # cs))
          else if take 5 (c # cs) = js ''false'' then Inr (JBool False, drop 5 (c # cs))
          else if take 4 (c # cs) = js ''null'' then Inr (JNull, drop 4 (c # cs))
          else Inl SyntaxError)"
| "parse_elements 0 s = Inl OutOfFuel"
| "parse_elements (Suc f) s =
     (case parse_value f s of
        Inl e \<Rightarrow> Inl e
      | Inr (v, r) \<Rightarrow>
          (case skip_ws r of
             [] \<Rightarrow> Inl SyntaxError
           | c # cs \<Rightarrow>
               if c = COMMA then
                 (case parse_elements f cs of
                    Inl e \<Rightarrow> Inl e
                  | Inr (vs, r') \<Rightarrow> Inr (v # vs, r'))
               else if c = RBRACKET then Inr ([v], cs)
               else Inl SyntaxError))"
| "parse_members 0 s = Inl OutOfFuel"
| "parse_members (Suc f) s =
     (case skip_ws s of
        [] \<Rightarrow> Inl SyntaxError
      | q # s1 \<Rightarrow>
          if q \<noteq> DQUOTE then Inl SyntaxError
          else (case parse_chars s1 of
                  Inl e \<Rightarrow> Inl e
                | Inr (k, s2) \<Rightarrow>
                    (case skip_ws s2 of
                       [] \<Rightarrow> Inl SyntaxError
                     | c # s3 \<Rightarrow>
                         if c \<noteq> COLON then Inl SyntaxError
                         else (case parse_value f s3 of
                                 Inl e \<Rightarrow> Inl e
                               | Inr (v, s4) \<Rightarrow>
                                   (case skip_ws s4 of
                                      [] \<Rightarrow> Inl SyntaxError
                                    | c' # s5 \<Rightarrow>
                                        if c' = COMMA then
                                          (case parse_members f s5 of
                                             Inl e \<Rightarrow> Inl e
                                           | Inr (ms, s6) \<Rightarrow> Inr ((k, v) # ms, s6))
                                        else if c' = RBRACE then Inr ([(k, v)], s5)
                                        else Inl SyntaxError)))))"

text \<open>The whole text is one value between optional white space.\<close>

definition JSON_parse :: "jsstring \<Rightarrow> parse_error + json" where
  "JSON_parse text =
     (case parse_value (2 * length text + 2) text of
        Inl e \<Rightarrow> Inl e
      | Inr (v, r) \<Rightarrow> if skip_ws r = [] then Inr v else Inl SyntaxError)"

subsection \<open>Export and import of the configuration\<close>

text \<open>
  The configuration as a JavaScript value: an array of objects whose properties are in
  the order of the object literals of the source (lines 141 to 159 and 167 to 173);
  \<open>answerConfig\<close> is a property only where the field has one.
\<close>

definition numstr_json :: "numstr \<Rightarrow> json" where
  "numstr_json v = (case v of S s \<Rightarrow> JStr s | N n \<Rightarrow> JNum n)"

definition type_name :: "FieldSourceType \<Rightarrow> jsstring" where
  "type_name t =
     (case t of
        Csv_column \<Rightarrow> js ''csv_column''
      | Constant \<Rightarrow> js ''constant''
      | Filename \<Rightarrow> js ''filename''
      | Smart_answer \<Rightarrow> js ''smart_answer'')"

definition mode_name :: "OutputMode \<Rightarrow> jsstring" where
  "mode_name m = (case m of Key \<Rightarrow> js ''key'' | Content \<Rightarrow> js ''content'')"

definition answer_json :: "AnswerConfig \<Rightarrow> json" where
  "answer_json a =
     JObj [(js ''sourceKeyIdx'', numstr_json (sourceKeyIdx a)),
           (js ''outputMode'', JStr (mode_name (outputMode a))),
           (js ''optionIndices'', JArr (map numstr_json (optionIndices a)))]"

definition field_json :: "ExportField \<Rightarrow> json" where
  "field_json f =
     JObj ([(js ''id'', JStr (fid f)),
            (js ''headerName'', JStr (headerName f)),
            (js ''type'', JStr (type_name (ftype f))),
            (js ''sourceValue'', numstr_json (sourceValue f))]
           @ (case answerConfig f of
                None \<Rightarrow> []
              | Some a \<Rightarrow> [(js ''answerConfig'', answer_json a)]))"

definition config_json :: "ExportField list \<Rightarrow> json" where
  "config_json config = JArr (map field_json config)"

text \<open>
  \<open>exportCurrentConfig\<close> hands the text of the configuration to the download;
  \<open>importConfig\<close> (its \<open>onload\<close> handler) parses the text of the chosen file and
  stores whatever value the parser returns; when the parser throws, it shows the alert
  and leaves the configuration as it is. The state is the stored value and the alert shown.
\<close>

datatype alert = ConfigParseError

definition exportCurrentConfig :: "json \<Rightarrow> jsstring" where
  "exportCurrentConfig exportConfig = JSON_stringify exportConfig"

definition importConfig :: "jsstring \<Rightarrow> json \<Rightarrow> json \<times> alert option" where
  "importConfig text exportConfig =
     (case JSON_parse text of
        Inl e \<Rightarrow> (exportConfig, Some ConfigParseError)
      | Inr imported \<Rightarrow> (imported, None))"

section \<open>Notions used in the statements and proofs\<close>

text \<open>A string that neither starts nor ends with a white space character.\<close>

definition trimmed :: "jsstring \<Rightarrow> bool" where
  "trimmed c \<longleftrightarrow> c = [] \<or> (\<not> is_js_space (hd c) \<and> \<not> is_js_space (last c))"

text \<open>The invariant of the loop of \<open>parseCSV\<close>: every cell pushed so far is trimmed.\<close>

definition cells_trimmed :: "scan_state \<Rightarrow> bool" where
  "cells_trimmed st \<longleftrightarrow>
     (\<forall>r \<in> set (result st). \<forall>c \<in> set r. trimmed c) \<and> (\<forall>c \<in> set (row st). trimmed c)"

text \<open>
  The pieces of a text between its commas, as \<open>String.prototype.split(',')\<close> gives
  them: a text without a comma is its one piece, and the empty text has one empty piece.
\<close>

fun split_commas :: "jsstring \<Rightarrow> jsstring list" where
  "split_commas [] = [[]]"
| "split_commas (c # cs) =
     (if c = COMMA then [] # split_commas cs
      else (c # hd (split_commas cs)) # tl (split_commas cs))"

text \<open>
  A selector whose number is the index of an element of the row.
\<close>

definition valid_index :: "jsstring list \<Rightarrow> numstr \<Rightarrow> bool" where
  "valid_index r v \<longleftrightarrow> (case Number_js v of None \<Rightarrow> False | Some i \<Rightarrow> 0 \<le> i \<and> i < int (length r))"

text \<open>
  The specification's wording of the key normalization: the uppercase form with every
  fullwidth Latin letter (capital or small) and every fullwidth digit moved down by 0xFEE0.
\<close>

definition is_fullwidth_letter :: "jschar \<Rightarrow> bool" where
  "is_fullwidth_letter c \<longleftrightarrow> (0xFF21 \<le> c \<and> c \<le> 0xFF3A) \<or> (0xFF41 \<le> c \<and> c \<le> 0xFF5A)"

definition is_fullwidth_digit :: "jschar \<Rightarrow> bool" where
  "is_fullwidth_digit c \<longleftrightarrow> 0xFF10 \<le> c \<and> c \<le> 0xFF19"

definition spec_normalize :: "(nat \<Rightarrow> nat list) \<Rightarrow> jsstring \<Rightarrow> jsstring" where
  "spec_normalize ucase rawKey =
     map (\<lambda>c. if is_fullwidth_letter c \<or> is_fullwidth_digit c then c - 0xFEE0 else c)
       (toUpperCase ucase rawKey)"

text \<open>
  What the statements about the fullwidth letters need of the case mapping: its results are
  code points, and none of them is a fullwidth small letter (Unicode maps no character to
  one when it writes it in capitals).
\<close>

definition unicode_table :: "(nat \<Rightarrow> nat list) \<Rightarrow> bool" where
  "unicode_table ucase \<longleftrightarrow>
     (\<forall>cp. \<forall>u \<in> set (ucase cp). u \<le> 0x10FFFF \<and> \<not> (0xFF41 \<le> u \<and> u \<le> 0xFF5A))"

definition fullwidth_small :: "jschar \<Rightarrow> bool" where
  "fullwidth_small c \<longleftrightarrow> 0xFF41 \<le> c \<and> c \<le> 0xFF5A"

text \<open>
  A case mapping for the examples: that of Latin-1 (sharp s becomes SS, the micro sign and
  y with diaeresis leave the block), every other code point unchanged.
\<close>

definition latin1_ucase :: "nat \<Rightarrow> nat list" where
  "latin1_ucase cp =
     (if cp = 0xDF then [0x53, 0x53]
      else if cp = 0xB5 then [0x39C]
      else if cp = 0xFF then [0x178]
      else if 0xE0 \<le> cp \<and> cp \<le> 0xFE \<and> cp \<noteq> 0xF7 then [cp - 0x20]
      else if cp \<le> 0x10FFFF \<and> \<not> (0xFF41 \<le> cp \<and> cp \<le> 0xFF5A) then [cp]
      else [])"

text \<open>
  The specification's wording of the emitter: the header names joined by commas, then for
  every row but row 0 the values of the row, each between double quotes with its double
  quotes doubled, joined by commas; the lines joined by newlines.
\<close>

definition emit_spec ::
  "(nat \<Rightarrow> nat list) \<Rightarrow> ExportField list \<Rightarrow> jsstring list list \<Rightarrow> jsstring \<Rightarrow> jsstring" where
  "emit_spec ucase config grid fname =
     join [LF]
       (join [COMMA] (map headerName config) #
        map (\<lambda>r. join [COMMA]
                   (map (\<lambda>f. [DQUOTE]
                               @ concat (map (\<lambda>c. if c = DQUOTE then [DQUOTE, DQUOTE] else [c])
                                           (fieldValue ucase f r fname))
                               @ [DQUOTE])
                      config))
          (tl grid))"

text \<open>The text behind a printed value: the end, or a comma, or a line feed.\<close>

definition delim :: "jsstring \<Rightarrow> bool" where
  "delim rest \<longleftrightarrow> rest = [] \<or> hd rest = COMMA \<or> hd rest = LF"

text \<open>
  The values the round trip is proved for: integers for numbers, and objects whose
  property names are distinct and none an array index, so that the parser keeps them in
  the order of the text. Every configuration is one.
\<close>

fun canonical_json :: "json \<Rightarrow> bool" where
  "canonical_json (JArr vs) = (\<forall>v \<in> set vs. canonical_json v)"
| "canonical_json (JObj ms) =
     (distinct (map fst ms) \<and> (\<forall>m \<in> set ms. \<not> is_array_index (fst m) \<and> canonical_json (snd m)))"
| "canonical_json (JDec m d) = False"
| "canonical_json v = True"

text \<open>
  A value is read back from its text at every indentation, with enough fuel, whatever
  follows behind a delimiter.
\<close>

definition roundtrips :: "json \<Rightarrow> bool" where
  "roundtrips v \<longleftrightarrow>
     (\<forall>ind f rest. length (stringify ind v) \<le> f \<longrightarrow> delim rest \<longrightarrow>
        parse_value f (stringify ind v @ rest) = Inr (v, rest))"

text \<open>The first code unit of a printed value starts a value and nothing else.\<close>

definition value_start :: "jschar \<Rightarrow> bool" where
  "value_start c \<longleftrightarrow> \<not> is_json_ws c \<and> c \<noteq> RBRACKET \<and> c \<noteq> RBRACE \<and> c \<noteq> COMMA"

text \<open>With fuel \<open>f\<close> the parser never returns more text than it was given.\<close>

definition shrinks :: "nat \<Rightarrow> bool" where
  "shrinks f \<longleftrightarrow>
     (\<forall>s v r. parse_value f s = Inr (v, r) \<longrightarrow> length r \<le> length s) \<and>
     (\<forall>s vs r. parse_elements f s = Inr (vs, r) \<longrightarrow> length r \<le> length s) \<and>
     (\<forall>s ms r. parse_members f s = Inr (ms, r) \<longrightarrow> length r \<le> length s)"

text \<open>Fuel above twice the length of the text is never used up.\<close>

definition enough :: "nat \<Rightarrow> bool" where
  "enough f \<longleftrightarrow>
     (\<forall>s. 2 * length s + 2 \<le> f \<longrightarrow> parse_value f s \<noteq> Inl OutOfFuel) \<and>
     (\<forall>s. 2 * length s + 3 \<le> f \<longrightarrow> parse_elements f s \<noteq> Inl OutOfFuel) \<and>
     (\<forall>s. 2 * length s + 3 \<le> f \<longrightarrow> parse_members f s \<noteq> Inl OutOfFuel)"

text \<open>
  A configuration with a field of each kind; the answer field has set and unset option
  slots, the constant holds a quote, a backslash, a line feed, a surrogate pair and a lone
  surrogate.
\<close>

definition example_config :: "ExportField list" where
  "example_config =
     [\<lparr>fid = js ''f_name'', headerName = js ''file'', ftype = Filename, sourceValue = S [],
       answerConfig = None\<rparr>,
      \<lparr>fid = js ''f_c'', headerName = js ''level'', ftype = Constant,
       sourceValue = S (js ''say \"A\"'' @ [0x5C, 0x0A, 0xD83D, 0xDE00, 0xDC00]), answerConfig = None\<rparr>,
      \<lparr>fid = js ''f_q'', headerName = [], ftype = Csv_column, sourceValue = N 0,
       answerConfig = None\<rparr>,
      \<lparr>fid = js ''f_ans'', headerName = js ''ans'', ftype = Smart_answer, sourceValue = S [],
       answerConfig = Some \<lparr>sourceKeyIdx = S (js ''5''), outputMode = Content,
                              optionIndices = [N 1, S [], N (- 3), S (js ''4'')]\<rparr>\<rparr>]"

section \<open>Properties of the tabular parser\<close>

lemmas char_defs = DQUOTE_def COMMA_def LF_def CR_def

lemmas eval_defs = js_def trim_def is_js_space_def scan_init_def end_row_def flush_def keep_row_def
  parseCSV_def quoteCell_def replace_quotes_def char_defs Let_def

lemma rev_dropWhile_rev_hd:
  assumes "xs \<noteq> []" "\<not> P (hd xs)"
  shows "rev (dropWhile P (rev xs)) \<noteq> [] \<and> hd (rev (dropWhile P (rev xs))) = hd xs"
proof -
  obtain x ys where xs: "xs = x # ys" using assms(1) by (cases xs) auto
  with assms(2) have px: "\<not> P x" by simp
  have "dropWhile P (rev ys @ [x]) = dropWhile P (rev ys) @ [x]"
    using px by (simp add: dropWhile_append)
  then show ?thesis using xs by simp
qed

lemma trimmed_trim: "trimmed (trim s)"
proof (cases "dropWhile is_js_space s = []")
  case True
  have "trim s = []" unfolding trim_def True by simp
  then show ?thesis by (simp add: trimmed_def)
next
  case False
  let ?ys = "dropWhile is_js_space s"
  have h: "\<not> is_js_space (hd ?ys)" using False by (rule hd_dropWhile)
  from rev_dropWhile_rev_hd [of ?ys is_js_space, OF False h]
  have ne: "trim s \<noteq> []" and hd: "hd (trim s) = hd ?ys" by (simp_all add: trim_def)
  have dne: "dropWhile is_js_space (rev ?ys) \<noteq> []" using ne by (simp add: trim_def)
  have "last (trim s) = hd (dropWhile is_js_space (rev ?ys))"
    using dne by (simp add: trim_def last_rev)
  moreover have "\<not> is_js_space (hd (dropWhile is_js_space (rev ?ys)))"
    using dne by (rule hd_dropWhile)
  ultimately show ?thesis using h hd by (simp add: trimmed_def)
qed

lemma trim_trimmed: "trimmed c \<Longrightarrow> trim c = c"
proof (cases c)
  case Nil then show ?thesis by (simp add: trim_def)
next
  case (Cons x xs)
  assume t: "trimmed c"
  with Cons have a: "\<not> is_js_space x" and b: "\<not> is_js_space (last c)" by (simp_all add: trimmed_def)
  have 1: "dropWhile is_js_space c = c" using a Cons by simp
  obtain y ys where rc: "rev c = y # ys" using Cons by (cases "rev c") auto
  then have "y = last c" using Cons by (metis hd_rev list.sel(1) list.distinct(1))
  then have "dropWhile is_js_space (y # ys) = y # ys" using b by simp
  then have 2: "dropWhile is_js_space (rev c) = rev c" unfolding rc .
  show ?thesis by (simp add: trim_def 1 2)
qed

lemma trim_idem: "trim (trim s) = trim s"
  by (rule trim_trimmed [OF trimmed_trim])

lemma cells_trimmed_end_row: "cells_trimmed st \<Longrightarrow> cells_trimmed (end_row st)"
  by (auto simp: cells_trimmed_def end_row_def Let_def trimmed_trim)

lemma cells_trimmed_scan: "cells_trimmed st \<Longrightarrow> cells_trimmed (scan st inp)"
proof (induction st inp rule: scan.induct)
  case (1 st)
  then show ?case by simp
next
  case (2 st c cs)
  have a: "cells_trimmed (st\<lparr>cell := x\<rparr>)" for x
    using "2.prems" by (simp add: cells_trimmed_def)
  have b: "cells_trimmed (st\<lparr>inQuotes := x\<rparr>)" for x
    using "2.prems" by (simp add: cells_trimmed_def)
  have c: "cells_trimmed (st\<lparr>row := row st @ [trim (cell st)], cell := []\<rparr>)"
    using "2.prems" by (auto simp: cells_trimmed_def trimmed_trim)
  have d: "cells_trimmed (end_row st)"
    using "2.prems" by (rule cells_trimmed_end_row)
  show ?case
    using "2.IH" a b c d by simp
qed

lemma flush_cells_trimmed:
  "r \<in> set (flush (scan scan_init inp)) \<Longrightarrow> c \<in> set r \<Longrightarrow> trimmed c"
proof -
  assume r: "r \<in> set (flush (scan scan_init inp))" and c: "c \<in> set r"
  have "cells_trimmed scan_init" by (simp add: cells_trimmed_def scan_init_def)
  then have "cells_trimmed (scan scan_init inp)" by (rule cells_trimmed_scan)
  then have "\<forall>r \<in> set (flush (scan scan_init inp)). \<forall>c \<in> set r. trimmed c"
    by (auto simp: cells_trimmed_def flush_def trimmed_trim)
  then show ?thesis using r c by blast
qed

lemma parseCSV_subset_flush: "set (parseCSV inp) \<subseteq> set (flush (scan scan_init inp))"
  by (auto simp: parseCSV_def)

lemma parseCSV_trimmed: "r \<in> set (parseCSV inp) \<Longrightarrow> c \<in> set r \<Longrightarrow> trimmed c"
  using flush_cells_trimmed parseCSV_subset_flush by blast

lemma parseCSV_keep_row: "r \<in> set (parseCSV inp) \<Longrightarrow> keep_row r"
  by (auto simp: parseCSV_def split: if_splits)

text \<open>
  C10: every cell of the grid \<open>parseCSV\<close> returns is what \<open>trim\<close> leaves unchanged,
  and a cell that is not empty neither starts nor ends with a white space character. The
  cells are trimmed where they are pushed, after the quotes have been taken away, so that
  the white space inside a quoted cell is removed as well.
\<close>

theorem parseCSV_cells_trimmed:
  "\<forall>r \<in> set (parseCSV inp). \<forall>c \<in> set r.
     trim c = c \<and> (c \<noteq> [] \<longrightarrow> \<not> is_js_space (hd c) \<and> \<not> is_js_space (last c))"
proof (intro ballI)
  fix r c assume "r \<in> set (parseCSV inp)" "c \<in> set r"
  then have t: "trimmed c" by (rule parseCSV_trimmed)
  then show "trim c = c \<and> (c \<noteq> [] \<longrightarrow> \<not> is_js_space (hd c) \<and> \<not> is_js_space (last c))"
    using trim_trimmed [OF t] by (auto simp: trimmed_def)
qed

theorem parseCSV_cells_trimmed_witness:
  "parseCSV (js ''\" a \", b '') = [[js ''a'', js ''b'']] \<and>
   trim (js ''a'') = js ''a'' \<and>
   \<not> is_js_space (hd (js ''a'')) \<and> \<not> is_js_space (last (js ''a''))"
proof -
  have e: "parseCSV (js ''\" a \", b '') = [[js ''a'', js ''b'']]"
    by (simp add: eval_defs)
  show ?thesis
    using parseCSV_cells_trimmed [of "js ''\" a \", b ''"] unfolding e
    by (simp add: js_def trim_def is_js_space_def)
qed

lemma scan_result_prefix:
  "scan (st\<lparr>result := p @ result st\<rparr>) inp = (scan st inp)\<lparr>result := p @ result (scan st inp)\<rparr>"
proof (induction st inp rule: scan.induct)
  case (1 st)
  show ?case by simp
next
  case (2 st c cs)
  obtain a b x d where st: "st = \<lparr>result = a, row = b, cell = x, inQuotes = d\<rparr>"
    by (cases st)
  show ?case
    using "2.IH" unfolding st by (cases d) (auto simp: end_row_def)
qed

lemma split_commas_ne: "split_commas u \<noteq> []"
  by (induction u) auto

lemma scan_terminator_split:
  assumes "t = LF \<or> t = CR" "LF \<notin> set u"
  shows "scan st (p @ t # u) = scan (scan st (p @ [t])) u"
proof (induction st p rule: scan.induct)
  case (1 st)
  have hu: "u = [] \<or> hd u \<noteq> LF" using assms(2) by (cases u) auto
  show ?case using assms(1) hu by (auto simp: char_defs)
next
  case (2 st c cs)
  have hu: "u = [] \<or> hd u \<noteq> LF" using assms(2) by (cases u) auto
  show ?case
  proof (cases "cs = []")
    case True
    then show ?thesis using assms(1) hu by (auto simp: char_defs)
  next
    case False
    then have h: "hd (cs @ t # u) = hd cs" "hd (cs @ [t]) = hd cs"
      "tl (cs @ t # u) = tl cs @ t # u" "tl (cs @ [t]) = tl cs @ [t]"
      by simp_all
    show ?thesis
      using "2.IH" False by (auto simp: h char_defs)
  qed
qed

lemma scan_after_terminator:
  assumes "t = LF \<or> t = CR"
  shows "\<not> inQuotes (scan st (p @ [t])) \<Longrightarrow>
   row (scan st (p @ [t])) = [] \<and> cell (scan st (p @ [t])) = []"
proof (induction st p rule: scan.induct)
  case (1 st)
  then show ?case using assms by (auto simp: char_defs end_row_def Let_def split: if_splits)
next
  case (2 st c cs)
  show ?case
  proof (cases "cs = []")
    case True
    with "2.prems" show ?thesis
      using assms by (auto simp: char_defs end_row_def Let_def split: if_splits)
  next
    case False
    then have h: "hd (cs @ [t]) = hd cs" "tl (cs @ [t]) = tl cs @ [t]"
      by simp_all
    show ?thesis
      using "2.IH" "2.prems" False by (auto simp: h char_defs split: if_splits)
  qed
qed

lemma scan_cells:
  "\<not> inQuotes st \<Longrightarrow> DQUOTE \<notin> set u \<Longrightarrow> LF \<notin> set u \<Longrightarrow> CR \<notin> set u \<Longrightarrow>
   result (scan st u) = result st \<and> \<not> inQuotes (scan st u) \<and>
   row (scan st u) @ [trim (cell (scan st u))] =
     row st @ map trim ((cell st @ hd (split_commas u)) # tl (split_commas u))"
proof (induction u arbitrary: st)
  case Nil
  then show ?case by simp
next
  case (Cons c u)
  show ?case
  proof (cases "c = COMMA")
    case True
    let ?st = "st\<lparr>row := row st @ [trim (cell st)], cell := []\<rparr>"
    have s: "scan st (c # u) = scan ?st u" using True Cons.prems by (simp add: char_defs)
    have "\<not> inQuotes ?st" using Cons.prems by simp
    from Cons.IH [OF this] Cons.prems
    show ?thesis unfolding s using True split_commas_ne [of u]
      by (cases "split_commas u") simp_all
  next
    case False
    let ?st = "st\<lparr>cell := cell st @ [c]\<rparr>"
    have s: "scan st (c # u) = scan ?st u" using False Cons.prems by auto
    have "\<not> inQuotes ?st" using Cons.prems by simp
    from Cons.IH [OF this] Cons.prems
    show ?thesis unfolding s using False by simp
  qed
qed

lemma parseCSV_cells:
  assumes "DQUOTE \<notin> set u" "LF \<notin> set u" "CR \<notin> set u" "\<exists>c \<in> set (split_commas u). trim c \<noteq> []"
  shows "parseCSV u = [map trim (split_commas u)]"
proof -
  let ?S = "scan scan_init u"
  have ne: "u \<noteq> []" using assms(4) by (auto simp: trim_def)
  from scan_cells [of scan_init u] assms
  have r: "result ?S = []" and rc: "row ?S @ [trim (cell ?S)] = map trim (split_commas u)"
    using split_commas_ne [of u] by (cases "split_commas u"; simp add: scan_init_def)+
  have "cell ?S \<noteq> [] \<or> length (row ?S) > 0"
  proof (rule ccontr)
    assume "\<not> (cell ?S \<noteq> [] \<or> length (row ?S) > 0)"
    then have "map trim (split_commas u) = [[]]" using rc by (simp add: trim_def)
    then show False using assms(4) by (cases "split_commas u") auto
  qed
  then have f: "flush ?S = [map trim (split_commas u)]"
    using r rc by (simp add: flush_def)
  have "keep_row (map trim (split_commas u))"
    using assms(4) split_commas_ne [of u] by (auto simp: keep_row_def list_ex_iff)
  then show ?thesis using ne f by (simp add: parseCSV_def)
qed

lemma parseCSV_after_terminator:
  assumes "t = LF \<or> t = CR" "LF \<notin> set u" "\<not> inQuotes (scan scan_init (p @ [t]))"
  shows "parseCSV (p @ t # u) = parseCSV (p @ [t]) @ parseCSV u"
proof -
  let ?S = "scan scan_init (p @ [t])"
  from scan_after_terminator [OF assms(1) assms(3)] assms(3)
  have S: "?S = scan_init\<lparr>result := result ?S @ result scan_init\<rparr>"
    by (simp add: scan_init_def)
  have "scan scan_init (p @ t # u) = scan ?S u" using assms(1,2) by (rule scan_terminator_split)
  also have "\<dots> = scan (scan_init\<lparr>result := result ?S @ result scan_init\<rparr>) u"
    using S by simp
  also have "\<dots> = (scan scan_init u)\<lparr>result := result ?S @ result (scan scan_init u)\<rparr>"
    by (rule scan_result_prefix)
  finally have sc: "scan scan_init (p @ t # u) =
      (scan scan_init u)\<lparr>result := result ?S @ result (scan scan_init u)\<rparr>" .
  have fS: "flush ?S = result ?S"
    using scan_after_terminator [OF assms(1) assms(3)] by (simp add: flush_def)
  have "flush (scan scan_init (p @ t # u)) = flush ?S @ flush (scan scan_init u)"
    unfolding sc fS by (simp add: flush_def)
  moreover have "u = [] \<Longrightarrow> flush (scan scan_init u) = []"
    by (simp add: flush_def scan_init_def)
  ultimately show ?thesis by (simp add: parseCSV_def)
qed

text \<open>
  C9: \<open>parseCSV\<close> is a total function (the source has no \<open>throw\<close> and no operation
  that throws: a read behind the end of the text gives \<open>undefined\<close>). No row of its
  result is empty or has only cells that are empty after trimming, and the empty text gives
  the empty grid. A last row without a line terminator is captured with all its cells: a
  text \<open>u\<close> without double quote, line feed and carriage return, with a piece between
  its commas that is not blank, gives the one row of its trimmed pieces, when it is the
  whole text and when it follows a line feed or a carriage return that the scan reads
  outside quotes, whatever the text before; the rows of the text before stay as they are.
  More generally, a text without line feed behind such a terminator, quoted cells
  included, gives the rows it gives as a whole text.
\<close>

theorem parseCSV_no_blank_rows:
  "(\<forall>r \<in> set (parseCSV inp). r \<noteq> [] \<and> (\<exists>c \<in> set r. trim c \<noteq> [])) \<and>
   parseCSV [] = [] \<and>
   (DQUOTE \<notin> set u \<and> LF \<notin> set u \<and> CR \<notin> set u \<and>
    (\<exists>c \<in> set (split_commas u). trim c \<noteq> []) \<longrightarrow>
      parseCSV u = [map trim (split_commas u)] \<and>
      ((t = LF \<or> t = CR) \<and> \<not> inQuotes (scan scan_init (p @ [t])) \<longrightarrow>
         parseCSV (p @ t # u) = parseCSV (p @ [t]) @ [map trim (split_commas u)])) \<and>
   ((t = LF \<or> t = CR) \<and> LF \<notin> set v \<and> \<not> inQuotes (scan scan_init (p @ [t])) \<longrightarrow>
      parseCSV (p @ t # v) = parseCSV (p @ [t]) @ parseCSV v)"
proof (intro conjI ballI impI)
  fix r assume r: "r \<in> set (parseCSV inp)"
  then have k: "keep_row r" by (rule parseCSV_keep_row)
  then show "r \<noteq> []" by (auto simp: keep_row_def)
  from k obtain c where c: "c \<in> set r" "c \<noteq> []"
    by (auto simp: keep_row_def list_ex_iff)
  from parseCSV_trimmed [OF r c(1)] have "trim c = c" by (rule trim_trimmed)
  with c(2) have "trim c \<noteq> []" by simp
  with c(1) show "\<exists>c \<in> set r. trim c \<noteq> []" by blast
next
  show "parseCSV [] = []" by (simp add: parseCSV_def)
next
  assume "DQUOTE \<notin> set u \<and> LF \<notin> set u \<and> CR \<notin> set u \<and>
    (\<exists>c \<in> set (split_commas u). trim c \<noteq> [])"
  then show "parseCSV u = [map trim (split_commas u)]" by (simp add: parseCSV_cells)
next
  assume u: "DQUOTE \<notin> set u \<and> LF \<notin> set u \<and> CR \<notin> set u \<and>
    (\<exists>c \<in> set (split_commas u). trim c \<noteq> [])"
    and q: "(t = LF \<or> t = CR) \<and> \<not> inQuotes (scan scan_init (p @ [t]))"
  from u have "parseCSV u = [map trim (split_commas u)]" by (simp add: parseCSV_cells)
  moreover from u q have "parseCSV (p @ t # u) = parseCSV (p @ [t]) @ parseCSV u"
    by (intro parseCSV_after_terminator) simp_all
  ultimately show "parseCSV (p @ t # u) = parseCSV (p @ [t]) @ [map trim (split_commas u)]"
    by simp
next
  assume "(t = LF \<or> t = CR) \<and> LF \<notin> set v \<and> \<not> inQuotes (scan scan_init (p @ [t]))"
  then show "parseCSV (p @ t # v) = parseCSV (p @ [t]) @ parseCSV v"
    by (intro parseCSV_after_terminator) simp_all
qed

theorem parseCSV_no_blank_rows_witness:
  "parseCSV (js ''h1,h2'' @ [LF] @ js '' , '' @ [CR, LF, LF] @ js '' a ,,b c'')
     = [[js ''h1'', js ''h2''], [js ''a'', [], js ''b c'']] \<and>
   parseCSV (js '' a ,,b c'') = [[js ''a'', [], js ''b c'']] \<and>
   parseCSV (js ''x'' @ [CR] @ js ''a,b'') = [[js ''x''], [js ''a'', js ''b'']] \<and>
   parseCSV (js ''x'' @ [CR] @ js ''\"a,b\",c'') = [[js ''x''], [js ''a,b'', js ''c'']] \<and>
   split_commas (js '' a ,,b c'') = [js '' a '', [], js ''b c''] \<and>
   \<not> inQuotes (scan scan_init (js ''h1,h2'' @ [LF] @ js '' , '' @ [CR, LF] @ [LF])) \<and>
   parseCSV (js ''h1,h2'' @ [LF] @ js '' , '' @ [CR, LF] @ [LF]) = [[js ''h1'', js ''h2'']]"
proof -
  let ?u = "js '' a ,,b c''"
  let ?p = "js ''h1,h2'' @ [LF] @ js '' , '' @ [CR, LF]"
  have s: "split_commas ?u = [js '' a '', [], js ''b c'']"
    by (simp add: js_def char_defs)
  have s2: "split_commas (js ''a,b'') = [js ''a'', js ''b'']"
    by (simp add: js_def char_defs)
  have q: "\<not> inQuotes (scan scan_init (?p @ [LF]))"
    by (simp add: eval_defs)
  have q2: "\<not> inQuotes (scan scan_init (js ''x'' @ [CR]))"
    by (simp add: eval_defs)
  have e: "parseCSV (?p @ [LF]) = [[js ''h1'', js ''h2'']]"
    by (simp add: eval_defs)
  have e2: "parseCSV (js ''x'' @ [CR]) = [[js ''x'']]"
    by (simp add: eval_defs)
  have e3: "parseCSV (js ''\"a,b\",c'') = [[js ''a,b'', js ''c'']]"
    by (simp add: eval_defs)
  have v: "LF \<notin> set (js ''\"a,b\",c'')"
    by (simp add: js_def char_defs)
  have u: "DQUOTE \<notin> set ?u \<and> LF \<notin> set ?u \<and> CR \<notin> set ?u"
    by (simp add: js_def char_defs)
  have u2: "DQUOTE \<notin> set (js ''a,b'') \<and> LF \<notin> set (js ''a,b'') \<and> CR \<notin> set (js ''a,b'')"
    by (simp add: js_def char_defs)
  have t: "map trim [js '' a '', [], js ''b c''] = [js ''a'', [], js ''b c'']"
      "map trim [js ''a'', js ''b''] = [js ''a'', js ''b'']"
    by (simp_all add: js_def trim_def is_js_space_def)
  from parseCSV_no_blank_rows [of "?p @ LF # ?u" ?u LF ?p "[]"]
  have 1: "parseCSV ?u = [map trim (split_commas ?u)] \<and>
        parseCSV (?p @ LF # ?u) = parseCSV (?p @ [LF]) @ [map trim (split_commas ?u)]"
    using u q unfolding s by (simp add: js_def trim_def is_js_space_def)
  from parseCSV_no_blank_rows [of "[]" "js ''a,b''" CR "js ''x''" "js ''\"a,b\",c''"]
  have 2: "parseCSV (js ''x'' @ CR # js ''a,b'') =
           parseCSV (js ''x'' @ [CR]) @ [map trim (split_commas (js ''a,b''))] \<and>
           parseCSV (js ''x'' @ CR # js ''\"a,b\",c'') =
           parseCSV (js ''x'' @ [CR]) @ parseCSV (js ''\"a,b\",c'')"
    using u2 q2 v unfolding s2 by (simp add: js_def trim_def is_js_space_def)
  from 1 2 show ?thesis unfolding s s2 e e2 e3 t using q e s by simp
qed

section \<open>Quoting and parsing one cell\<close>

lemma scan_quoted:
  "inQuotes st \<Longrightarrow>
   scan st (replace_quotes s @ [DQUOTE]) = st\<lparr>cell := cell st @ s, inQuotes := False\<rparr>"
proof (induction s arbitrary: st)
  case Nil
  then show ?case by (simp add: replace_quotes_def)
next
  case (Cons c s)
  have step: "scan st (replace_quotes (c # s) @ [DQUOTE]) =
              scan (st\<lparr>cell := cell st @ [c]\<rparr>) (replace_quotes s @ [DQUOTE])"
    using Cons.prems by (simp add: replace_quotes_def)
  have "inQuotes (st\<lparr>cell := cell st @ [c]\<rparr>)" using Cons.prems by simp
  from Cons.IH [OF this] step show ?case by simp
qed

lemma parseCSV_quoteCell:
  "parseCSV (quoteCell s) = (if trim s = [] then [] else [[trim s]])"
proof -
  have "scan scan_init (quoteCell s) =
        scan (scan_init\<lparr>inQuotes := True\<rparr>) (replace_quotes s @ [DQUOTE])"
    by (simp add: quoteCell_def scan_init_def)
  also have "\<dots> = scan_init\<lparr>cell := s, inQuotes := False\<rparr>"
    by (simp add: scan_quoted scan_init_def)
  finally have sc: "scan scan_init (quoteCell s) = scan_init\<lparr>cell := s, inQuotes := False\<rparr>" .
  have t: "s = [] \<Longrightarrow> trim s = []" by (simp add: trim_def)
  have ne: "quoteCell s \<noteq> []" by (simp add: quoteCell_def)
  have "flush (scan scan_init (quoteCell s)) = (if s = [] then [] else [[trim s]])"
    unfolding flush_def sc by (simp add: scan_init_def)
  then show ?thesis
    using t ne by (simp add: parseCSV_def keep_row_def)
qed

text \<open>
  C4 as the specification states it fails: the parser trims the cell it reads, also when
  the cell was quoted, so a string that starts or ends with white space (here a comma, a
  quote and a newline) does not come back.
\<close>

theorem quote_roundtrip_counterexample:
  "parseCSV (quoteCell [COMMA, DQUOTE, LF]) \<noteq> [[[COMMA, DQUOTE, LF]]]"
  by (simp add: parseCSV_quoteCell trim_def is_js_space_def char_defs)

text \<open>
  C4, amended: parsing the emitter's quoting of \<open>s\<close> gives one row with the one cell
  \<open>trim s\<close>, which is \<open>s\<close> itself when \<open>s\<close> neither starts nor ends with white
  space, and gives no row when \<open>s\<close> is empty or all white space.
\<close>

theorem quote_roundtrip_trimmed:
  "parseCSV (quoteCell s) = (if trim s = [] then [] else [[trim s]]) \<and>
   (s \<noteq> [] \<and> \<not> is_js_space (hd s) \<and> \<not> is_js_space (last s) \<longrightarrow>
      parseCSV (quoteCell s) = [[s]])"
proof (intro conjI impI)
  show "parseCSV (quoteCell s) = (if trim s = [] then [] else [[trim s]])"
    by (rule parseCSV_quoteCell)
next
  assume a: "s \<noteq> [] \<and> \<not> is_js_space (hd s) \<and> \<not> is_js_space (last s)"
  then have "trim s = s" by (intro trim_trimmed) (simp add: trimmed_def)
  with a show "parseCSV (quoteCell s) = [[s]]" by (simp add: parseCSV_quoteCell)
qed

theorem quote_roundtrip_trimmed_witness:
  "parseCSV (quoteCell (js ''a,\"b\"'' @ [LF] @ js ''c'')) = [[js ''a,\"b\"'' @ [LF] @ js ''c'']] \<and>
   js ''a,\"b\"'' @ [LF] @ js ''c'' \<noteq> [] \<and>
   \<not> is_js_space (hd (js ''a,\"b\"'' @ [LF] @ js ''c'')) \<and>
   \<not> is_js_space (last (js ''a,\"b\"'' @ [LF] @ js ''c''))"
proof -
  have a: "js ''a,\"b\"'' @ [LF] @ js ''c'' \<noteq> [] \<and>
      \<not> is_js_space (hd (js ''a,\"b\"'' @ [LF] @ js ''c'')) \<and>
      \<not> is_js_space (last (js ''a,\"b\"'' @ [LF] @ js ''c''))"
    by (simp add: js_def is_js_space_def char_defs)
  from quote_roundtrip_trimmed [of "js ''a,\"b\"'' @ [LF] @ js ''c''"] a
  show ?thesis by blast
qed

section \<open>Properties of the row evaluator and the emitter\<close>

lemma utf16_no_small:
  "u \<le> 0x10FFFF \<Longrightarrow> \<not> fullwidth_small u \<Longrightarrow> c \<in> set (utf16 u) \<Longrightarrow> \<not> fullwidth_small c"
  by (auto simp: utf16_def fullwidth_small_def split: if_splits)

lemma upper_cp_no_small:
  assumes "unicode_table ucase" "u \<in> set (upper_cp ucase cp)"
  shows "u \<le> 0x10FFFF \<and> \<not> fullwidth_small u"
  using assms by (auto simp: upper_cp_def unicode_table_def fullwidth_small_def split: if_splits)

lemma toUpperCase_no_small:
  "unicode_table ucase \<Longrightarrow> c \<in> set (toUpperCase ucase s) \<Longrightarrow> \<not> fullwidth_small c"
proof (induction ucase s rule: toUpperCase.induct)
  case (1 ucase)
  then show ?case by simp
next
  case (2 ucase c' cs)
  note tbl = "2.prems"(1)
  have enc: "\<not> fullwidth_small x" if "x \<in> set (concat (map utf16 (upper_cp ucase cp)))" for cp x
  proof -
    from that obtain u where u: "u \<in> set (upper_cp ucase cp)" "x \<in> set (utf16 u)" by auto
    from upper_cp_no_small [OF tbl u(1)] u(2) show ?thesis using utf16_no_small [of u x] by simp
  qed
  have sur: "is_high_surrogate c' \<or> is_low_surrogate c' \<Longrightarrow> \<not> fullwidth_small c'"
    by (auto simp: is_high_surrogate_def is_low_surrogate_def fullwidth_small_def)
  show ?case
    using "2.prems" "2.IH" enc sur by (auto split: if_splits)
qed

lemma normalizeKey_spec:
  assumes "unicode_table ucase"
  shows "normalizeKey ucase k = spec_normalize ucase k"
proof -
  have "\<forall>c \<in> set (toUpperCase ucase k).
          in_fullwidth_class c = (is_fullwidth_letter c \<or> is_fullwidth_digit c)"
    using toUpperCase_no_small [OF assms, of _ k]
    by (auto simp: in_fullwidth_class_def is_fullwidth_letter_def is_fullwidth_digit_def
          fullwidth_small_def)
  then show ?thesis by (simp add: normalizeKey_def spec_normalize_def)
qed

lemmas key_defs = normalizeKey_def upper_cp_def utf16_def is_high_surrogate_def is_low_surrogate_def
  in_fullwidth_class_def

lemma unicode_table_latin1: "unicode_table latin1_ucase"
  by (auto simp: unicode_table_def latin1_ucase_def split: if_splits)

lemma processSmartAnswer_key:
  "sourceKeyIdx cfg \<noteq> S [] \<Longrightarrow> outputMode cfg = Key \<Longrightarrow>
   processSmartAnswer ucase r (Some cfg) =
     normalizeKey ucase (trim (cellAt r (Number_js (sourceKeyIdx cfg))))"
  by (simp add: processSmartAnswer_def Let_def)

text \<open>
  C5: for a case mapping of Unicode, the key normalization of the source is the
  specification's: the uppercase form of the key in which every fullwidth Latin letter and
  every fullwidth digit is replaced by the code unit 0xFEE0 below and every other code unit
  is left as it is; with \<open>outputMode = Key\<close> this is the resolver's result for the trimmed
  key. The three examples hold for every case mapping: fullwidth A gives \<open>A\<close>, fullwidth 3
  gives \<open>3\<close>, and \<open>a\<close> gives \<open>A\<close>.
\<close>

theorem normalizeKey_fullwidth:
  "(unicode_table ucase \<longrightarrow>
      normalizeKey ucase k = spec_normalize ucase k \<and>
      (sourceKeyIdx cfg \<noteq> S [] \<and> outputMode cfg = Key \<longrightarrow>
         processSmartAnswer ucase r (Some cfg) =
           spec_normalize ucase (trim (cellAt r (Number_js (sourceKeyIdx cfg)))))) \<and>
   normalizeKey ucase [0xFF21] = js ''A'' \<and>
   normalizeKey ucase [0xFF13] = js ''3'' \<and>
   normalizeKey ucase (js ''a'') = js ''A''"
  by (simp add: normalizeKey_spec [symmetric] processSmartAnswer_key)
     (simp add: key_defs js_def)

theorem normalizeKey_fullwidth_witness:
  "unicode_table latin1_ucase \<and>
   normalizeKey latin1_ucase [0xFF42, 0xDF, 0xFF11, 0x20AC] = js ''BSS1'' @ [0x20AC] \<and>
   spec_normalize latin1_ucase [0xFF42, 0xDF, 0xFF11, 0x20AC] = js ''BSS1'' @ [0x20AC] \<and>
   processSmartAnswer latin1_ucase [js ''x'', [0x20, 0xFF42]]
       (Some \<lparr>sourceKeyIdx = S (js ''1''), outputMode = Key, optionIndices = []\<rparr>)
     = spec_normalize latin1_ucase (trim (cellAt [js ''x'', [0x20, 0xFF42]] (Number_js (S (js ''1'')))))"
proof -
  have e: "normalizeKey latin1_ucase [0xFF42, 0xDF, 0xFF11, 0x20AC] = js ''BSS1'' @ [0x20AC]"
    by (simp add: key_defs js_def latin1_ucase_def)
  from normalizeKey_fullwidth [of latin1_ucase "[0xFF42, 0xDF, 0xFF11, 0x20AC]"
      "\<lparr>sourceKeyIdx = S (js ''1''), outputMode = Key, optionIndices = []\<rparr>"
      "[js ''x'', [0x20, 0xFF42]]"]
    unicode_table_latin1 e
  show ?thesis by (simp add: js_def)
qed

lemmas num_defs = Number_js_def StringToNumber_def unsigned_decimal_def exponent_part_def scale10_def
  digits_val_def radix_digit_def radix_val_def is_digit_def double_integer_def ulp_exponent_def
  significand_def round_half_even_def binary_exponent_def at_least_pow2_def bit_length.simps

lemmas answer_defs = processSmartAnswer_def targetIdx_def cellAt_def Number_js_def Let_def key_defs
  trim_def is_js_space_def js_def

lemma targetIdx_letter: "0x41 \<le> c \<Longrightarrow> c \<le> 0x5A \<Longrightarrow> targetIdx [c] = int c - 65"
  by (simp add: targetIdx_def)

lemma targetIdx_digit: "0x31 \<le> c \<Longrightarrow> c \<le> 0x39 \<Longrightarrow> targetIdx [c] = int c - 0x30 - 1"
  by (simp add: targetIdx_def)

lemma processSmartAnswer_content:
  assumes "sourceKeyIdx cfg \<noteq> S []" "outputMode cfg = Content"
  shows "processSmartAnswer ucase r (Some cfg) =
    (let rawKey = trim (cellAt r (Number_js (sourceKeyIdx cfg)));
         t = targetIdx (normalizeKey ucase rawKey)
     in if 0 \<le> t \<and> t < int (length (optionIndices cfg)) \<and> optionIndices cfg ! nat t \<noteq> S []
        then cellAt r (Number_js (optionIndices cfg ! nat t)) else rawKey)"
  using assms by (simp add: processSmartAnswer_def Let_def)

text \<open>
  C6: on the row \<open>Q1, opt A, opt B, opt C, opt D, B\<close> with \<open>sourceKeyIdx = 5\<close> and
  \<open>optionIndices = [1, 2, 3, 4]\<close> the resolver returns \<open>opt B\<close> in content mode and
  \<open>B\<close> in key mode. A key of one letter \<open>A\<close> to \<open>Z\<close> decodes to the letter's place
  in the alphabet, counted from 0, a key of one digit 1 to 9 to the digit's value minus 1;
  and in content mode the result is the cell that the option slot at this position selects.
\<close>

theorem smart_answer_decoding:
  "processSmartAnswer ucase
     [js ''Q1'', js ''opt A'', js ''opt B'', js ''opt C'', js ''opt D'', js ''B'']
     (Some \<lparr>sourceKeyIdx = N 5, outputMode = Content, optionIndices = [N 1, N 2, N 3, N 4]\<rparr>)
     = js ''opt B'' \<and>
   processSmartAnswer ucase
     [js ''Q1'', js ''opt A'', js ''opt B'', js ''opt C'', js ''opt D'', js ''B'']
     (Some \<lparr>sourceKeyIdx = N 5, outputMode = Key, optionIndices = [N 1, N 2, N 3, N 4]\<rparr>)
     = js ''B'' \<and>
   (0x41 \<le> c \<and> c \<le> 0x5A \<longrightarrow> targetIdx [c] = int c - 0x41) \<and>
   (0x31 \<le> c \<and> c \<le> 0x39 \<longrightarrow> targetIdx [c] = (int c - 0x30) - 1) \<and>
   (sourceKeyIdx cfg \<noteq> S [] \<and> outputMode cfg = Content \<and>
    normalizeKey ucase (trim (cellAt r (Number_js (sourceKeyIdx cfg)))) = [c] \<and>
    (0x41 \<le> c \<and> c \<le> 0x5A \<and> p = c - 0x41 \<or> 0x31 \<le> c \<and> c \<le> 0x39 \<and> p = c - 0x31) \<and>
    p < length (optionIndices cfg) \<and> optionIndices cfg ! p \<noteq> S [] \<longrightarrow>
      processSmartAnswer ucase r (Some cfg) = cellAt r (Number_js (optionIndices cfg ! p)))"
proof (intro conjI impI)
  show "processSmartAnswer ucase
     [js ''Q1'', js ''opt A'', js ''opt B'', js ''opt C'', js ''opt D'', js ''B'']
     (Some \<lparr>sourceKeyIdx = N 5, outputMode = Content, optionIndices = [N 1, N 2, N 3, N 4]\<rparr>)
     = js ''opt B''"
    by (simp add: answer_defs)
  show "processSmartAnswer ucase
     [js ''Q1'', js ''opt A'', js ''opt B'', js ''opt C'', js ''opt D'', js ''B'']
     (Some \<lparr>sourceKeyIdx = N 5, outputMode = Key, optionIndices = [N 1, N 2, N 3, N 4]\<rparr>)
     = js ''B''"
    by (simp add: answer_defs)
next
  assume "0x41 \<le> c \<and> c \<le> 0x5A"
  then show "targetIdx [c] = int c - 0x41" by (simp add: targetIdx_letter)
next
  assume "0x31 \<le> c \<and> c \<le> 0x39"
  then show "targetIdx [c] = (int c - 0x30) - 1" by (simp add: targetIdx_digit)
next
  assume a: "sourceKeyIdx cfg \<noteq> S [] \<and> outputMode cfg = Content \<and>
    normalizeKey ucase (trim (cellAt r (Number_js (sourceKeyIdx cfg)))) = [c] \<and>
    (0x41 \<le> c \<and> c \<le> 0x5A \<and> p = c - 0x41 \<or> 0x31 \<le> c \<and> c \<le> 0x39 \<and> p = c - 0x31) \<and>
    p < length (optionIndices cfg) \<and> optionIndices cfg ! p \<noteq> S []"
  then have t: "targetIdx [c] = int p"
    by (auto simp: targetIdx_def)
  from a have "processSmartAnswer ucase r (Some cfg) =
    (let rawKey = trim (cellAt r (Number_js (sourceKeyIdx cfg)));
         t = targetIdx (normalizeKey ucase rawKey)
     in if 0 \<le> t \<and> t < int (length (optionIndices cfg)) \<and> optionIndices cfg ! nat t \<noteq> S []
        then cellAt r (Number_js (optionIndices cfg ! nat t)) else rawKey)"
    by (intro processSmartAnswer_content) simp_all
  with a t show "processSmartAnswer ucase r (Some cfg) = cellAt r (Number_js (optionIndices cfg ! p))"
    by (simp add: Let_def)
qed

theorem smart_answer_decoding_witness:
  "targetIdx [0x43] = 2 \<and> targetIdx [0x34] = 3 \<and>
   processSmartAnswer latin1_ucase [js ''q'', js ''one'', js ''two'', js ''three'', js '' 2 '']
     (Some \<lparr>sourceKeyIdx = N 4, outputMode = Content, optionIndices = [S (js ''1''), N 2, N 3]\<rparr>)
     = js ''two'' \<and>
   cellAt [js ''q'', js ''one'', js ''two'', js ''three'', js '' 2 ''] (Number_js (N 2)) = js ''two''"
proof -
  let ?r = "[js ''q'', js ''one'', js ''two'', js ''three'', js '' 2 '']"
  let ?cfg = "\<lparr>sourceKeyIdx = N 4, outputMode = Content, optionIndices = [S (js ''1''), N 2, N 3]\<rparr>"
  have k: "normalizeKey latin1_ucase (trim (cellAt ?r (Number_js (sourceKeyIdx ?cfg)))) = [0x32]"
    by (simp add: answer_defs)
  have c: "cellAt ?r (Number_js (N 2)) = js ''two''" by (simp add: answer_defs)
  from smart_answer_decoding [of latin1_ucase "0x43" ?cfg ?r 0]
  have 1: "targetIdx [0x43] = 2" by simp
  from smart_answer_decoding [of latin1_ucase "0x34" ?cfg ?r 0]
  have 2: "targetIdx [0x34] = 3" by simp
  from smart_answer_decoding [of latin1_ucase "0x32" ?cfg ?r 1] k
  have 3: "processSmartAnswer latin1_ucase ?r (Some ?cfg) = cellAt ?r (Number_js (N 2))"
    by simp
  from 1 2 3 c show ?thesis by simp
qed

text \<open>
  C1 as the specification states it fails: the key \<open>B\<close> decodes to position 1, the slot
  there is set to 9, which is no index of the row, and the result is the empty string,
  not the raw key \<open>B\<close>.
\<close>

theorem smart_answer_fallback_counterexample:
  "processSmartAnswer latin1_ucase
     [js ''Q1'', js ''opt A'', js ''opt B'', js ''opt C'', js ''opt D'', js ''B'']
     (Some \<lparr>sourceKeyIdx = N 5, outputMode = Content, optionIndices = [N 1, N 9, N 3, N 4]\<rparr>)
     = [] \<and>
   trim (cellAt [js ''Q1'', js ''opt A'', js ''opt B'', js ''opt C'', js ''opt D'', js ''B'']
           (Number_js (N 5))) = js ''B'' \<and>
   targetIdx (normalizeKey latin1_ucase (js ''B'')) = 1 \<and>
   \<not> valid_index [js ''Q1'', js ''opt A'', js ''opt B'', js ''opt C'', js ''opt D'', js ''B''] (N 9)"
  by (simp add: answer_defs valid_index_def)

text \<open>
  C1, amended: in content mode, when the normalized key decodes to a position inside
  \<open>optionIndices\<close> and the slot there is set, the result is the cell of the row at the
  slot's index when that is an index of the row, and the empty string when it is not. The
  result is the raw trimmed key when the key decodes to no position, when the position is
  outside \<open>optionIndices\<close>, and when the slot is unset.
\<close>

theorem smart_answer_fallback:
  "sourceKeyIdx cfg \<noteq> S [] \<and> outputMode cfg = Content \<and>
   rawKey = trim (cellAt r (Number_js (sourceKeyIdx cfg))) \<and>
   t = targetIdx (normalizeKey ucase rawKey) \<longrightarrow>
     (0 \<le> t \<and> t < int (length (optionIndices cfg)) \<and> optionIndices cfg ! nat t \<noteq> S [] \<longrightarrow>
        (\<forall>j. Number_js (optionIndices cfg ! nat t) = Some j \<and> 0 \<le> j \<and> j < int (length r) \<longrightarrow>
              processSmartAnswer ucase r (Some cfg) = r ! nat j) \<and>
        (\<not> valid_index r (optionIndices cfg ! nat t) \<longrightarrow>
              processSmartAnswer ucase r (Some cfg) = [])) \<and>
     (t < 0 \<or> int (length (optionIndices cfg)) \<le> t \<or> optionIndices cfg ! nat t = S [] \<longrightarrow>
        processSmartAnswer ucase r (Some cfg) = rawKey)"
proof (intro impI)
  assume a: "sourceKeyIdx cfg \<noteq> S [] \<and> outputMode cfg = Content \<and>
   rawKey = trim (cellAt r (Number_js (sourceKeyIdx cfg))) \<and>
   t = targetIdx (normalizeKey ucase rawKey)"
  then have p: "processSmartAnswer ucase r (Some cfg) =
     (if 0 \<le> t \<and> t < int (length (optionIndices cfg)) \<and> optionIndices cfg ! nat t \<noteq> S []
      then cellAt r (Number_js (optionIndices cfg ! nat t)) else rawKey)"
    using processSmartAnswer_content [of cfg ucase r] by (simp add: Let_def)
  show "(0 \<le> t \<and> t < int (length (optionIndices cfg)) \<and> optionIndices cfg ! nat t \<noteq> S [] \<longrightarrow>
        (\<forall>j. Number_js (optionIndices cfg ! nat t) = Some j \<and> 0 \<le> j \<and> j < int (length r) \<longrightarrow>
              processSmartAnswer ucase r (Some cfg) = r ! nat j) \<and>
        (\<not> valid_index r (optionIndices cfg ! nat t) \<longrightarrow>
              processSmartAnswer ucase r (Some cfg) = [])) \<and>
     (t < 0 \<or> int (length (optionIndices cfg)) \<le> t \<or> optionIndices cfg ! nat t = S [] \<longrightarrow>
        processSmartAnswer ucase r (Some cfg) = rawKey)"
    unfolding p by (auto simp: cellAt_def valid_index_def split: option.splits)
qed

theorem smart_answer_fallback_witness:
  "processSmartAnswer latin1_ucase [js ''B'', js ''one'', js ''two'']
     (Some \<lparr>sourceKeyIdx = N 0, outputMode = Content, optionIndices = [N 1, S (js ''2''), N 3, S []]\<rparr>)
     = js ''two'' \<and>
   processSmartAnswer latin1_ucase [js ''c'', js ''one'', js ''two'']
     (Some \<lparr>sourceKeyIdx = N 0, outputMode = Content, optionIndices = [N 1, S (js ''2''), N 3, S []]\<rparr>)
     = [] \<and>
   processSmartAnswer latin1_ucase [js ''4'', js ''one'', js ''two'']
     (Some \<lparr>sourceKeyIdx = N 0, outputMode = Content, optionIndices = [N 1, S (js ''2''), N 3, S []]\<rparr>)
     = js ''4'' \<and>
   processSmartAnswer latin1_ucase [js ''?!'', js ''one'', js ''two'']
     (Some \<lparr>sourceKeyIdx = N 0, outputMode = Content, optionIndices = [N 1, S (js ''2''), N 3, S []]\<rparr>)
     = js ''?!''"
proof -
  let ?cfg = "\<lparr>sourceKeyIdx = N 0, outputMode = Content, optionIndices = [N 1, S (js ''2''), N 3, S []]\<rparr>"
  have 1: "processSmartAnswer latin1_ucase [js ''B'', js ''one'', js ''two''] (Some ?cfg) = js ''two''"
    using smart_answer_fallback [of ?cfg "js ''B''" "[js ''B'', js ''one'', js ''two'']" 1 latin1_ucase]
    by (simp add: answer_defs num_defs)
  have 2: "processSmartAnswer latin1_ucase [js ''c'', js ''one'', js ''two''] (Some ?cfg) = []"
    using smart_answer_fallback [of ?cfg "js ''c''" "[js ''c'', js ''one'', js ''two'']" 2 latin1_ucase]
    by (simp add: answer_defs valid_index_def)
  have 3: "processSmartAnswer latin1_ucase [js ''4'', js ''one'', js ''two''] (Some ?cfg) = js ''4''"
    using smart_answer_fallback [of ?cfg "js ''4''" "[js ''4'', js ''one'', js ''two'']" 3 latin1_ucase]
    by (simp add: answer_defs)
  have 4: "processSmartAnswer latin1_ucase [js ''?!'', js ''one'', js ''two''] (Some ?cfg) = js ''?!''"
    using smart_answer_fallback [of ?cfg "js ''?!''" "[js ''?!'', js ''one'', js ''two'']" "-1" latin1_ucase]
    by (simp add: answer_defs)
  from 1 2 3 4 show ?thesis by simp
qed

text \<open>
  C2 fails on the code: a \<open>csv_column\<close> field whose \<open>sourceValue\<close> is unset (the empty
  string) is evaluated through \<open>Number('')\<close>, which is 0, and yields the content of column
  0; the resolver tests its selectors against the empty string before it converts them,
  this path does not.
\<close>

theorem column_ref_unset_reads_column_0:
  "fieldValue ucase
     \<lparr>fid = js ''f_q'', headerName = js ''q'', ftype = Csv_column, sourceValue = S [],
      answerConfig = None\<rparr>
     [js ''x'', js ''y''] fname = js ''x''"
  by (simp add: fieldValue_def cellAt_def Number_js_def StringToNumber_def trim_def)

lemma column_ref_unset:
  "ftype f = Csv_column \<Longrightarrow> sourceValue f = S [] \<Longrightarrow>
   fieldValue ucase f r fname = (if r = [] then [] else hd r)"
  by (cases r) (simp_all add: fieldValue_def cellAt_def Number_js_def StringToNumber_def trim_def)

lemma column_ref_number:
  "ftype f = Csv_column \<Longrightarrow> sourceValue f = N i \<Longrightarrow>
   fieldValue ucase f r fname = (if 0 \<le> i \<and> i < int (length r) then r ! nat i else [])"
  by (simp add: fieldValue_def cellAt_def Number_js_def)

lemma foldl_push: "foldl (\<lambda>rows r. rows @ [f r]) acc xs = acc @ map f xs"
  by (induction xs arbitrary: acc) simp_all

text \<open>
  C7: for every configuration, grid and file name, \<open>generateCSV\<close> returns the header
  names joined by commas, unquoted, followed by one line for each row of the grid but row
  0, each cell the value of its field between double quotes with the double quotes inside
  doubled, the cells joined by commas and the lines by newlines. With two column fields
  over the columns 0 and 1, named \<open>h1\<close> and \<open>h2\<close>, the grid of a header row and the row
  \<open>a,b\<close>, \<open>c"d\<close> gives the lines \<open>h1,h2\<close> and \<open>"a,b","c""d"\<close>.
\<close>

theorem generateCSV_emit:
  "generateCSV ucase config grid fname = emit_spec ucase config grid fname \<and>
   generateCSV ucase
     [\<lparr>fid = js ''f1'', headerName = js ''h1'', ftype = Csv_column, sourceValue = N 0,
       answerConfig = None\<rparr>,
      \<lparr>fid = js ''f2'', headerName = js ''h2'', ftype = Csv_column, sourceValue = S (js ''1''),
       answerConfig = None\<rparr>]
     [[js ''h1'', js ''h2''], [js ''a,b'', js ''c\"d'']] fname
     = js ''h1,h2'' @ [LF] @ js ''\"a,b\",\"c\"\"d\"''"
proof
  show "generateCSV ucase config grid fname = emit_spec ucase config grid fname"
    by (simp add: generateCSV_def emit_spec_def outputRow_def quoteCell_def replace_quotes_def
          foldl_push drop_Suc Let_def)
next
  show "generateCSV ucase
     [\<lparr>fid = js ''f1'', headerName = js ''h1'', ftype = Csv_column, sourceValue = N 0,
       answerConfig = None\<rparr>,
      \<lparr>fid = js ''f2'', headerName = js ''h2'', ftype = Csv_column, sourceValue = S (js ''1''),
       answerConfig = None\<rparr>]
     [[js ''h1'', js ''h2''], [js ''a,b'', js ''c\"d'']] fname
     = js ''h1,h2'' @ [LF] @ js ''\"a,b\",\"c\"\"d\"''"
    by (simp add: generateCSV_def outputRow_def quoteCell_def replace_quotes_def fieldValue_def
          cellAt_def num_defs trim_def is_js_space_def js_def char_defs Let_def)
qed

section \<open>Properties of the configuration codec\<close>

lemmas json_char_defs = DQUOTE_def COMMA_def LF_def CR_def BACKSLASH_def SPACE_def COLON_def
  LBRACKET_def RBRACKET_def LBRACE_def RBRACE_def

lemma nat_digits_ne: "nat_digits n \<noteq> []"
  by (subst nat_digits.simps) simp

lemma nat_digits_all: "list_all is_digit (nat_digits n)"
proof (induction n rule: nat_digits.induct)
  case (1 n)
  show ?case
  proof (cases "n < 10")
    case True
    then show ?thesis by (subst nat_digits.simps) (simp add: is_digit_def)
  next
    case False
    have "n mod 10 < 10" by simp
    then have "is_digit (0x30 + n mod 10)" unfolding is_digit_def by linarith
    with False 1 show ?thesis by (subst nat_digits.simps) simp
  qed
qed

lemma digits_val_snoc: "digits_val (ds @ [c]) = 10 * digits_val ds + (c - 0x30)"
  by (simp add: digits_val_def)

lemma digits_val_nat_digits: "digits_val (nat_digits n) = n"
proof (induction n rule: nat_digits.induct)
  case (1 n)
  show ?case
  proof (cases "n < 10")
    case True
    then show ?thesis by (subst nat_digits.simps) (simp add: digits_val_def)
  next
    case False
    with 1 show ?thesis
      by (subst nat_digits.simps) (simp add: digits_val_snoc)
  qed
qed

lemma hd_nat_digits: "hd (nat_digits n) = 0x30 \<longleftrightarrow> n = 0"
proof (induction n rule: nat_digits.induct)
  case (1 n)
  show ?case
  proof (cases "n < 10")
    case True
    then show ?thesis by (subst nat_digits.simps) simp
  next
    case False
    then have "n div 10 \<noteq> 0" by simp
    with False 1 show ?thesis
      by (subst nat_digits.simps) (simp add: hd_append nat_digits_ne)
  qed
qed

lemma hd_nat_digits_digit: "is_digit (hd (nat_digits n))"
  using nat_digits_all [of n] nat_digits_ne [of n] by (cases "nat_digits n") simp_all

lemma delim_not_digit: "delim rest \<Longrightarrow> rest = [] \<or> \<not> is_digit (hd rest)"
  by (auto simp: delim_def is_digit_def json_char_defs)

lemma takeWhile_digits: "delim rest \<Longrightarrow> takeWhile is_digit (nat_digits n @ rest) = nat_digits n"
  using nat_digits_all [of n] delim_not_digit [of rest]
  by (cases rest) (auto simp: takeWhile_append list_all_iff)

lemma dropWhile_digits: "delim rest \<Longrightarrow> dropWhile is_digit (nat_digits n @ rest) = rest"
  using nat_digits_all [of n] delim_not_digit [of rest]
  by (cases rest) (auto simp: dropWhile_append list_all_iff)

lemma number_int_nat: "delim rest \<Longrightarrow> number_int (nat_digits n @ rest) = (nat_digits n, rest)"
proof (cases "n = 0")
  case True
  then show ?thesis by (subst (1 2) nat_digits.simps) (simp add: number_int_def)
next
  case False
  assume d: "delim rest"
  from False have "hd (nat_digits n @ rest) \<noteq> 0x30"
    using hd_nat_digits [of n] nat_digits_ne [of n] by simp
  then show ?thesis
    using takeWhile_digits [OF d] dropWhile_digits [OF d]
    by (simp add: number_int_def del: takeWhile_append dropWhile_append)
qed

lemma number_frac_delim: "delim rest \<Longrightarrow> number_frac rest = Some ([], rest)"
  by (auto simp: number_frac_def delim_def json_char_defs)

lemma number_exp_delim: "delim rest \<Longrightarrow> number_exp rest = Some (0, rest)"
  by (auto simp: number_exp_def delim_def json_char_defs)

lemma hd_nat_digits_not_minus: "hd (nat_digits n @ rest) \<noteq> 0x2D"
  using hd_nat_digits_digit [of n] nat_digits_ne [of n] by (auto simp: is_digit_def)

lemma parse_number_int:
  assumes "delim rest"
  shows "parse_number (int_to_string i @ rest) = Inr (JNum i, rest)"
proof (cases "i < 0")
  case True
  then have "parse_number (int_to_string i @ rest) =
      Inr (make_number True (digits_val (nat_digits (nat (- i)))) 0, rest)"
    by (simp add: parse_number_def int_to_string_def number_int_nat [OF assms]
          number_frac_delim [OF assms] number_exp_delim [OF assms] nat_digits_ne)
  with True show ?thesis by (simp add: make_number_def digits_val_nat_digits)
next
  case False
  then have "parse_number (int_to_string i @ rest) =
      Inr (make_number False (digits_val (nat_digits (nat i))) 0, rest)"
    using hd_nat_digits_not_minus [of "nat i" rest]
    by (simp add: parse_number_def int_to_string_def number_int_nat [OF assms]
          number_frac_delim [OF assms] number_exp_delim [OF assms] nat_digits_ne)
  with False show ?thesis by (simp add: make_number_def digits_val_nat_digits)
qed

lemma int_to_string_ne: "int_to_string i \<noteq> []"
  by (simp add: int_to_string_def nat_digits_ne)

lemma hd_int_to_string: "hd (int_to_string i) = 0x2D \<or> is_digit (hd (int_to_string i))"
  using hd_nat_digits_digit by (simp add: int_to_string_def)

lemma radix_digit_hex: "n < 16 \<Longrightarrow> radix_digit 16 (hex_digit n) = Some n"
  by (auto simp: radix_digit_def hex_digit_def Let_def)

lemma is_hex_hex_digit: "n < 16 \<Longrightarrow> is_hex (hex_digit n)"
  by (simp add: is_hex_def radix_digit_hex)

lemma hex4_all: "list_all is_hex (hex4 c)"
  by (simp add: hex4_def is_hex_hex_digit)

lemma hex4_sum:
  fixes c :: nat
  assumes "c < 65536"
  shows "16 * (16 * (16 * (c div 4096 mod 16) + c div 256 mod 16) + c div 16 mod 16) + c mod 16 = c"
proof -
  define a where "a = c div 4096 mod 16"
  define b where "b = c div 256 mod 16"
  define d where "d = c div 16 mod 16"
  define e where "e = c mod 16"
  define x where "x = c mod 4096"
  define y where "y = c mod 256"
  have 1: "c mod 65536 = 4096 * a + x"
    unfolding a_def x_def using mod_mult2_eq [of c 4096 16] by simp
  have 2: "x = 256 * b + y"
    unfolding b_def x_def y_def using mod_mult2_eq [of c 256 16] by simp
  have 3: "y = 16 * d + e"
    unfolding d_def e_def y_def using mod_mult2_eq [of c 16 16] by simp
  from assms have "c mod 65536 = c" by simp
  with 1 have 4: "c = 4096 * a + x" by simp
  have "16 * (16 * (16 * a + b) + d) + e = c"
    by (simp add: 2 3 4 algebra_simps)
  then show ?thesis unfolding a_def b_def d_def e_def .
qed

lemma hex4_val: "c < 65536 \<Longrightarrow> radix_val 16 (hex4 c) = c"
proof -
  assume c: "c < 65536"
  have "radix_val 16 (hex4 c) =
        16 * (16 * (16 * (c div 4096 mod 16) + c div 256 mod 16) + c div 16 mod 16) + c mod 16"
    by (simp add: radix_val_def hex4_def radix_digit_hex)
  also have "\<dots> = c" using c by (rule hex4_sum)
  finally show ?thesis .
qed

lemma parse_chars_u:
  assumes "c < 65536"
  shows "parse_chars (0x5C # 0x75 # hex4 c @ xs) = cons_result c (parse_chars xs)"
proof -
  have l: "4 \<le> length (hex4 c @ xs)" and t: "take 4 (hex4 c @ xs) = hex4 c"
    and d: "drop 4 (hex4 c @ xs) = xs"
    by (simp_all add: hex4_def)
  have "parse_chars (0x5C # 0x75 # (hex4 c @ xs)) =
      (if 4 \<le> length (hex4 c @ xs) \<and> list_all is_hex (take 4 (hex4 c @ xs))
       then cons_result (radix_val 16 (take 4 (hex4 c @ xs))) (parse_chars (drop 4 (hex4 c @ xs)))
       else Inl SyntaxError)"
    by (simp add: json_char_defs del: take_append drop_append length_append)
  also have "\<dots> = cons_result c (parse_chars xs)"
    unfolding t d using l assms by (simp add: hex4_all hex4_val)
  finally show ?thesis by simp
qed

lemma parse_chars_short:
  "unescape e = Some ch \<Longrightarrow> e \<noteq> 0x75 \<Longrightarrow>
   parse_chars (0x5C # e # xs) = cons_result ch (parse_chars xs)"
  by (simp add: json_char_defs)

lemma parse_chars_plain:
  "c \<noteq> 0x22 \<Longrightarrow> c \<noteq> 0x5C \<Longrightarrow> \<not> c < 0x20 \<Longrightarrow>
   parse_chars (c # xs) = cons_result c (parse_chars xs)"
  by (simp add: json_char_defs)

lemma parse_chars_end: "parse_chars (0x22 # xs) = Inr ([], xs)"
  by (simp add: json_char_defs)

lemma quote_chars_ctl:
  "c < 0x20 \<Longrightarrow> c \<notin> {0x08, 0x09, 0x0A, 0x0C, 0x0D} \<Longrightarrow>
   quote_chars (c # cs) = [0x5C, 0x75] @ hex4 c @ quote_chars cs"
  by (auto simp: json_char_defs)

lemma quote_chars_pair:
  "is_high_surrogate c \<Longrightarrow> cs \<noteq> [] \<Longrightarrow> is_low_surrogate (hd cs) \<Longrightarrow>
   quote_chars (c # cs) = c # hd cs # quote_chars (tl cs)"
  by (auto simp: json_char_defs is_high_surrogate_def)

lemma quote_chars_lone:
  "\<not> (is_high_surrogate c \<and> cs \<noteq> [] \<and> is_low_surrogate (hd cs)) \<Longrightarrow>
   is_high_surrogate c \<or> is_low_surrogate c \<Longrightarrow>
   quote_chars (c # cs) = [0x5C, 0x75] @ hex4 c @ quote_chars cs"
  by (auto simp: json_char_defs is_high_surrogate_def is_low_surrogate_def)

lemma quote_chars_plain:
  "\<not> c < 0x20 \<Longrightarrow> c \<noteq> 0x22 \<Longrightarrow> c \<noteq> 0x5C \<Longrightarrow>
   \<not> is_high_surrogate c \<Longrightarrow> \<not> is_low_surrogate c \<Longrightarrow>
   quote_chars (c # cs) = c # quote_chars cs"
  by (auto simp: json_char_defs)

lemma quote_chars_short:
  "quote_chars (0x08 # cs) = [0x5C, 0x62] @ quote_chars cs"
  "quote_chars (0x09 # cs) = [0x5C, 0x74] @ quote_chars cs"
  "quote_chars (0x0A # cs) = [0x5C, 0x6E] @ quote_chars cs"
  "quote_chars (0x0C # cs) = [0x5C, 0x66] @ quote_chars cs"
  "quote_chars (0x0D # cs) = [0x5C, 0x72] @ quote_chars cs"
  "quote_chars (0x22 # cs) = [0x5C, 0x22] @ quote_chars cs"
  "quote_chars (0x5C # cs) = [0x5C, 0x5C] @ quote_chars cs"
  by (simp_all add: json_char_defs)

lemma parse_chars_quote_chars:
  "parse_chars (quote_chars s @ 0x22 # rest) = Inr (s, rest)"
proof (induction s rule: length_induct)
  case (1 s)
  show ?case
  proof (cases s)
    case Nil
    then show ?thesis by (simp add: parse_chars_end del: parse_chars.simps)
  next
    case (Cons c cs)
    have ih: "parse_chars (quote_chars cs @ 0x22 # rest) = Inr (cs, rest)"
      using 1 Cons by simp
    consider (short) "c \<in> {0x08, 0x09, 0x0A, 0x0C, 0x0D, 0x22, 0x5C}"
      | (ctl) "c < 0x20" "c \<notin> {0x08, 0x09, 0x0A, 0x0C, 0x0D}"
      | (pair) "is_high_surrogate c" "cs \<noteq> []" "is_low_surrogate (hd cs)"
      | (lone) "\<not> (is_high_surrogate c \<and> cs \<noteq> [] \<and> is_low_surrogate (hd cs))"
          "is_high_surrogate c \<or> is_low_surrogate c"
      | (plain) "\<not> c < 0x20" "c \<noteq> 0x22" "c \<noteq> 0x5C" "\<not> is_high_surrogate c"
          "\<not> is_low_surrogate c"
      by auto
    then show ?thesis
    proof cases
      case short
      then show ?thesis
        unfolding Cons using ih
        by (auto simp: quote_chars_short parse_chars_short unescape_def json_char_defs
              cons_result_def simp del: parse_chars.simps quote_chars.simps)
    next
      case ctl
      then have lt: "c < 65536" by simp
      show ?thesis
        unfolding Cons quote_chars_ctl [OF ctl]
        using parse_chars_u [OF lt, of "quote_chars cs @ 0x22 # rest"] ih
        by (simp add: cons_result_def del: parse_chars.simps quote_chars.simps)
    next
      case pair
      then obtain l ls where cs: "cs = l # ls" by (cases cs) auto
      have ih2: "parse_chars (quote_chars ls @ 0x22 # rest) = Inr (ls, rest)"
        using 1 Cons cs by simp
      from pair cs have l: "l \<noteq> 0x22" "l \<noteq> 0x5C" "\<not> l < 0x20"
        by (auto simp: is_low_surrogate_def)
      from pair have c: "c \<noteq> 0x22" "c \<noteq> 0x5C" "\<not> c < 0x20"
        by (auto simp: is_high_surrogate_def)
      show ?thesis
        unfolding Cons quote_chars_pair [OF pair] using cs ih2
        by (simp add: parse_chars_plain [OF c] parse_chars_plain [OF l] cons_result_def
              del: parse_chars.simps quote_chars.simps)
    next
      case lone
      then have lt: "c < 65536" by (auto simp: is_high_surrogate_def is_low_surrogate_def)
      show ?thesis
        unfolding Cons quote_chars_lone [OF lone]
        using parse_chars_u [OF lt, of "quote_chars cs @ 0x22 # rest"] ih
        by (simp add: cons_result_def del: parse_chars.simps quote_chars.simps)
    next
      case plain
      show ?thesis
        unfolding Cons quote_chars_plain [OF plain] using ih
        by (simp add: parse_chars_plain [OF plain(2,3,1)] cons_result_def
              del: parse_chars.simps quote_chars.simps)
    qed
  qed
qed

lemma char_facts:
  "\<not> is_json_ws RBRACKET" "\<not> is_json_ws RBRACE" "\<not> is_json_ws COMMA" "\<not> is_json_ws COLON"
  "\<not> is_json_ws DQUOTE" "\<not> is_json_ws LBRACKET" "\<not> is_json_ws LBRACE"
  "RBRACKET \<noteq> COMMA" "RBRACE \<noteq> COMMA" "LBRACKET \<noteq> LBRACE" "DQUOTE \<noteq> RBRACE"
  "DQUOTE \<noteq> LBRACE" "DQUOTE \<noteq> LBRACKET"
  by (simp_all add: is_json_ws_def json_char_defs)

lemma skip_ws_ws: "list_all is_json_ws ws \<Longrightarrow> skip_ws (ws @ s) = skip_ws s"
  by (induction ws) (simp_all add: skip_ws_def)

lemma skip_ws_indent: "skip_ws (indent n @ s) = skip_ws s"
  by (rule skip_ws_ws) (simp add: indent_def list_all_iff is_json_ws_def SPACE_def)

lemma skip_ws_nows: "\<not> is_json_ws c \<Longrightarrow> skip_ws (c # s) = c # s"
  by (simp add: skip_ws_def)

lemma skip_ws_LF: "skip_ws (LF # s) = skip_ws s"
  by (simp add: skip_ws_def is_json_ws_def LF_def)

lemma skip_ws_SPACE: "skip_ws (SPACE # s) = skip_ws s"
  by (simp add: skip_ws_def is_json_ws_def SPACE_def)

lemma skip_ws_idem: "skip_ws (skip_ws s) = skip_ws s"
  by (induction s) (simp_all add: skip_ws_def)

lemma parse_value_skip: "parse_value f (skip_ws s) = parse_value f s"
  by (cases f) (simp_all add: skip_ws_idem)

lemma parse_elements_skip: "parse_elements f (skip_ws s) = parse_elements f s"
  by (cases f) (simp_all add: parse_value_skip)

lemma parse_members_skip: "parse_members f (skip_ws s) = parse_members f s"
  by (cases f) (simp_all add: skip_ws_idem)

lemma stringify_start:
  "canonical_json v \<Longrightarrow> \<exists>c cs. stringify ind v = c # cs \<and> value_start c"
proof (cases v)
  case (JNum i)
  obtain c cs where s: "int_to_string i = c # cs" using int_to_string_ne [of i] by (cases "int_to_string i") auto
  moreover have "value_start c" using hd_int_to_string [of i] s
    by (auto simp: value_start_def is_digit_def is_json_ws_def json_char_defs)
  ultimately show ?thesis using JNum by simp
next
  case JNull
  then show ?thesis by (simp add: js_def value_start_def is_json_ws_def json_char_defs)
next
  case (JBool b)
  then show ?thesis by (simp add: js_def value_start_def is_json_ws_def json_char_defs)
next
  case (JDec m d)
  assume "canonical_json v"
  with JDec show ?thesis by simp
next
  case (JStr s)
  then show ?thesis by (simp add: quote_json_def value_start_def is_json_ws_def json_char_defs)
next
  case (JArr vs)
  then show ?thesis
    by (cases vs) (simp_all add: value_start_def is_json_ws_def json_char_defs)
next
  case (JObj ms)
  then show ?thesis
    by (cases ms) (simp_all add: value_start_def is_json_ws_def json_char_defs)
qed

lemma stringify_elements_start:
  "vs \<noteq> [] \<Longrightarrow> canonical_json (hd vs) \<Longrightarrow>
   \<exists>c cs. stringify_elements ind vs = c # cs \<and> value_start c"
proof (cases vs)
  case Nil
  assume "vs \<noteq> []" with Nil show ?thesis by simp
next
  case (Cons v ws)
  assume "canonical_json (hd vs)"
  with Cons obtain c cs where "stringify ind v = c # cs" "value_start c"
    using stringify_start [of v ind] by auto
  with Cons show ?thesis by (cases ws) auto
qed

lemma stringify_members_start:
  "ms \<noteq> [] \<Longrightarrow> \<exists>cs. stringify_members ind ms = DQUOTE # cs"
proof (cases ms)
  case Nil
  assume "ms \<noteq> []" with Nil show ?thesis by simp
next
  case (Cons m ws)
  obtain k v where "m = (k, v)" by (cases m)
  with Cons show ?thesis by (cases ws) (auto simp: quote_json_def)
qed

lemma length_stringify_pos: "canonical_json v \<Longrightarrow> 0 < length (stringify ind v)"
  using stringify_start [of v ind] by auto

lemma delim_simps: "delim (COMMA # s)" "delim (LF # s)" "delim []"
  by (simp_all add: delim_def)

lemma parse_elements_stringify:
  assumes "vs \<noteq> []" "\<forall>v \<in> set vs. canonical_json v \<and> roundtrips v"
    "length (stringify_elements ind vs) < f"
  shows "parse_elements f (stringify_elements ind vs @ LF # indent k @ RBRACKET # rest) = Inr (vs, rest)"
  using assms
proof (induction vs arbitrary: f)
  case Nil
  then show ?case by simp
next
  case (Cons v ws)
  from Cons.prems(3) obtain f' where f: "f = Suc f'" by (cases f) auto
  have rt: "roundtrips v" and cv: "canonical_json v" using Cons.prems(2) by simp_all
  have close: "skip_ws (LF # indent k @ RBRACKET # rest) = RBRACKET # rest"
    by (simp add: skip_ws_LF skip_ws_indent skip_ws_nows char_facts)
  show ?case
  proof (cases ws)
    case Nil
    have "length (stringify ind v) \<le> f'" using Cons.prems(3) f Nil by simp
    then have "parse_value f' (stringify ind v @ LF # indent k @ RBRACKET # rest) =
        Inr (v, LF # indent k @ RBRACKET # rest)"
      using rt by (simp add: roundtrips_def delim_simps)
    then show ?thesis
      unfolding f Nil
      by (subst parse_elements.simps(2)) (simp add: close char_facts)
  next
    case (Cons w ws')
    let ?tail = "LF # indent k @ RBRACKET # rest"
    let ?next = "stringify_elements ind (w # ws') @ ?tail"
    have len: "length (stringify ind v) \<le> f'" "length (stringify_elements ind (w # ws')) < f'"
      using Cons.prems(3) f Cons by simp_all
    have 1: "parse_value f' (stringify ind v @ COMMA # LF # indent ind @ ?next) =
        Inr (v, COMMA # LF # indent ind @ ?next)"
      using rt len(1) by (simp add: roundtrips_def delim_simps)
    have "parse_elements f' (LF # indent ind @ ?next) = parse_elements f' (skip_ws (LF # indent ind @ ?next))"
      by (simp only: parse_elements_skip)
    also have "\<dots> = parse_elements f' (skip_ws ?next)"
      by (simp add: skip_ws_LF skip_ws_indent)
    also have "\<dots> = parse_elements f' ?next" by (simp only: parse_elements_skip)
    also have "\<dots> = Inr (w # ws', rest)"
      using Cons.IH [of f'] Cons.prems(2) len(2) Cons by simp
    finally have 2: "parse_elements f' (LF # indent ind @ ?next) = Inr (w # ws', rest)" .
    have 3: "skip_ws (COMMA # LF # indent ind @ ?next) = COMMA # LF # indent ind @ ?next"
      by (simp add: skip_ws_nows char_facts)
    have e: "stringify_elements ind (v # w # ws') @ ?tail =
        stringify ind v @ COMMA # LF # indent ind @ ?next"
      by simp
    show ?thesis
      unfolding f Cons e
      by (subst parse_elements.simps(2)) (simp add: 1 2 3)
  qed
qed

lemma parse_chars_quote_json:
  "parse_chars (quote_chars k @ DQUOTE # rest) = Inr (k, rest)"
  using parse_chars_quote_chars [of k rest] by (simp add: DQUOTE_def)

lemma parse_value_SPACE: "parse_value f (SPACE # s) = parse_value f s"
proof -
  have "parse_value f (SPACE # s) = parse_value f (skip_ws (SPACE # s))"
    by (simp only: parse_value_skip)
  also have "\<dots> = parse_value f (skip_ws s)" by (simp add: skip_ws_SPACE)
  also have "\<dots> = parse_value f s" by (simp only: parse_value_skip)
  finally show ?thesis .
qed

lemma parse_members_LF_indent: "parse_members f (LF # indent n @ s) = parse_members f s"
proof -
  have "parse_members f (LF # indent n @ s) = parse_members f (skip_ws (LF # indent n @ s))"
    by (simp only: parse_members_skip)
  also have "\<dots> = parse_members f (skip_ws s)" by (simp add: skip_ws_LF skip_ws_indent)
  also have "\<dots> = parse_members f s" by (simp only: parse_members_skip)
  finally show ?thesis .
qed

lemma parse_members_stringify:
  assumes "ms \<noteq> []" "\<forall>m \<in> set ms. canonical_json (snd m) \<and> roundtrips (snd m)"
    "length (stringify_members ind ms) < f"
  shows "parse_members f (stringify_members ind ms @ LF # indent n @ RBRACE # rest) = Inr (ms, rest)"
  using assms
proof (induction ms arbitrary: f)
  case Nil
  then show ?case by simp
next
  case (Cons m ws)
  obtain k v where m: "m = (k, v)" by (cases m)
  from Cons.prems(3) obtain f' where f: "f = Suc f'" by (cases f) auto
  have rt: "roundtrips v" using Cons.prems(2) m by simp
  let ?tail = "LF # indent n @ RBRACE # rest"
  have close: "skip_ws ?tail = RBRACE # rest"
    by (simp add: skip_ws_LF skip_ws_indent skip_ws_nows char_facts)
  have open_q: "\<And>s. skip_ws (DQUOTE # s) = DQUOTE # s"
    by (simp add: skip_ws_nows char_facts)
  have colon: "\<And>s. skip_ws (COLON # s) = COLON # s"
    by (simp add: skip_ws_nows char_facts)
  show ?case
  proof (cases ws)
    case Nil
    have len: "length (stringify ind v) \<le> f'" using Cons.prems(3) f Nil m by simp
    have e: "stringify_members ind [(k, v)] @ ?tail =
        DQUOTE # quote_chars k @ DQUOTE # COLON # SPACE # stringify ind v @ ?tail"
      by (simp add: quote_json_def)
    have 1: "parse_value f' (SPACE # stringify ind v @ ?tail) = Inr (v, ?tail)"
      unfolding parse_value_SPACE using rt len by (simp add: roundtrips_def delim_simps)
    show ?thesis
      unfolding f Nil m e
      by (subst parse_members.simps(2))
         (simp add: open_q parse_chars_quote_json colon 1 close char_facts)
  next
    case (Cons w ws')
    let ?next = "stringify_members ind (w # ws') @ ?tail"
    have len: "length (stringify ind v) \<le> f'" "length (stringify_members ind (w # ws')) < f'"
      using Cons.prems(3) f Cons m by simp_all
    have e: "stringify_members ind ((k, v) # w # ws') @ ?tail =
        DQUOTE # quote_chars k @ DQUOTE # COLON # SPACE # stringify ind v
          @ COMMA # LF # indent ind @ ?next"
      by (simp add: quote_json_def)
    have 1: "parse_value f' (SPACE # stringify ind v @ COMMA # LF # indent ind @ ?next) =
        Inr (v, COMMA # LF # indent ind @ ?next)"
      unfolding parse_value_SPACE using rt len(1) by (simp add: roundtrips_def delim_simps)
    have 2: "parse_members f' (LF # indent ind @ ?next) = Inr (w # ws', rest)"
      unfolding parse_members_LF_indent
      using Cons.IH [of f'] Cons.prems(2) len(2) Cons by simp
    have 3: "\<And>s. skip_ws (COMMA # s) = COMMA # s"
      by (simp add: skip_ws_nows char_facts)
    show ?thesis
      unfolding f Cons m e
      by (subst parse_members.simps(2))
         (simp add: open_q parse_chars_quote_json colon 1 2 3 char_facts)
  qed
qed

lemma define_property_new:
  "k \<notin> fst ` set ps \<Longrightarrow> \<not> is_array_index k \<Longrightarrow> define_property ps (k, v) = ps @ [(k, v)]"
  by (simp add: define_property_def)

lemma foldl_define_property:
  "distinct (map fst ms) \<Longrightarrow> \<forall>m \<in> set ms. \<not> is_array_index (fst m) \<Longrightarrow>
   fst ` set acc \<inter> fst ` set ms = {} \<Longrightarrow>
   foldl define_property acc ms = acc @ ms"
proof (induction ms arbitrary: acc)
  case Nil
  then show ?case by simp
next
  case (Cons m ms)
  obtain k v where m: "m = (k, v)" by (cases m)
  have 1: "define_property acc m = acc @ [m]"
    unfolding m using Cons.prems m by (intro define_property_new) auto
  have "foldl define_property (acc @ [m]) ms = (acc @ [m]) @ ms"
    using Cons.prems by (intro Cons.IH) auto
  then show ?case using 1 by simp
qed

lemma make_object_canonical:
  "distinct (map fst ms) \<Longrightarrow> \<forall>m \<in> set ms. \<not> is_array_index (fst m) \<Longrightarrow> make_object ms = JObj ms"
  using foldl_define_property [of ms "[]"] by (simp add: make_object_def)

lemma parse_value_num:
  assumes "delim rest"
  shows "parse_value (Suc f) (int_to_string i @ rest) = Inr (JNum i, rest)"
proof -
  obtain c cs where s: "int_to_string i = c # cs"
    using int_to_string_ne [of i] by (cases "int_to_string i") auto
  have c: "c = 0x2D \<or> is_digit c" using hd_int_to_string [of i] s by simp
  then have nws: "\<not> is_json_ws c" and n1: "c \<noteq> LBRACE" "c \<noteq> LBRACKET" "c \<noteq> DQUOTE"
    by (auto simp: is_json_ws_def is_digit_def json_char_defs)
  have "parse_value (Suc f) ((c # cs) @ rest) = parse_number ((c # cs) @ rest)"
    using c nws n1 by (simp add: skip_ws_nows)
  then show ?thesis using parse_number_int [OF assms, of i] s by simp
qed

lemma parse_value_str:
  "parse_value (Suc f) (quote_json s @ rest) = Inr (JStr s, rest)"
  by (simp add: quote_json_def skip_ws_nows char_facts parse_chars_quote_json)

lemma parse_value_lit:
  "parse_value (Suc f) (js ''null'' @ rest) = Inr (JNull, rest)"
  "parse_value (Suc f) (js ''true'' @ rest) = Inr (JBool True, rest)"
  "parse_value (Suc f) (js ''false'' @ rest) = Inr (JBool False, rest)"
  by (simp_all add: js_def skip_ws_def is_json_ws_def is_digit_def json_char_defs)

lemma parse_value_empty:
  "parse_value (Suc f) ([LBRACKET, RBRACKET] @ rest) = Inr (JArr [], rest)"
  "parse_value (Suc f) ([LBRACE, RBRACE] @ rest) = Inr (JObj [], rest)"
  by (simp_all add: skip_ws_nows char_facts)

lemma parse_value_array:
  assumes "vs \<noteq> []" "\<forall>v \<in> set vs. canonical_json v \<and> roundtrips v"
    "length (stringify ind (JArr vs)) \<le> f"
  shows "parse_value f (stringify ind (JArr vs) @ rest) = Inr (JArr vs, rest)"
proof -
  obtain v ws where vs: "vs = v # ws" using assms(1) by (cases vs) auto
  define i where "i = ind + 2"
  let ?body = "stringify_elements i vs @ LF # indent ind @ RBRACKET # rest"
  have e: "stringify ind (JArr vs) @ rest = LBRACKET # LF # indent i @ ?body"
    unfolding vs i_def by simp
  from assms(3) obtain f' where f: "f = Suc f'" unfolding vs by (cases f) auto
  have len: "length (stringify_elements i vs) < f'"
    using assms(3) unfolding vs f i_def by simp
  obtain c cs where st: "stringify_elements i vs = c # cs" "value_start c"
    using stringify_elements_start [of vs i] assms(1,2) vs by auto
  then have sk: "skip_ws (LF # indent i @ ?body) = c # cs @ LF # indent ind @ RBRACKET # rest"
    by (simp add: skip_ws_LF skip_ws_indent skip_ws_nows value_start_def)
  have el: "parse_elements f' (c # cs @ LF # indent ind @ RBRACKET # rest) = Inr (vs, rest)"
    using parse_elements_stringify [OF assms(1,2) len, of ind rest] st(1) by simp
  from st(2) have ne: "c \<noteq> RBRACKET" by (simp add: value_start_def)
  show ?thesis
    unfolding e f
    by (subst parse_value.simps(2)) (simp add: skip_ws_nows char_facts sk el ne)
qed

lemma parse_value_object:
  assumes "ms \<noteq> []" "\<forall>m \<in> set ms. canonical_json (snd m) \<and> roundtrips (snd m)"
    "distinct (map fst ms)" "\<forall>m \<in> set ms. \<not> is_array_index (fst m)"
    "length (stringify ind (JObj ms)) \<le> f"
  shows "parse_value f (stringify ind (JObj ms) @ rest) = Inr (JObj ms, rest)"
proof -
  obtain m ws where ms: "ms = m # ws" using assms(1) by (cases ms) auto
  define i where "i = ind + 2"
  let ?body = "stringify_members i ms @ LF # indent ind @ RBRACE # rest"
  have e: "stringify ind (JObj ms) @ rest = LBRACE # LF # indent i @ ?body"
    unfolding ms i_def by simp
  from assms(5) obtain f' where f: "f = Suc f'" unfolding ms by (cases f) auto
  have len: "length (stringify_members i ms) < f'"
    using assms(5) unfolding ms f i_def by simp
  obtain cs where st: "stringify_members i ms = DQUOTE # cs"
    using stringify_members_start [OF assms(1), of i] by auto
  then have sk: "skip_ws (LF # indent i @ ?body) = DQUOTE # cs @ LF # indent ind @ RBRACE # rest"
    by (simp add: skip_ws_LF skip_ws_indent skip_ws_nows char_facts)
  have el: "parse_members f' (DQUOTE # cs @ LF # indent ind @ RBRACE # rest) = Inr (ms, rest)"
    using parse_members_stringify [OF assms(1,2) len, of ind rest] st by simp
  show ?thesis
    unfolding e f
    by (subst parse_value.simps(2))
       (simp add: skip_ws_nows char_facts sk el make_object_canonical [OF assms(3,4)])
qed

lemma canonical_roundtrips: "canonical_json v \<Longrightarrow> roundtrips v"
proof (induction v)
  case JNull
  show ?case unfolding roundtrips_def
  proof (intro allI impI)
    fix ind f rest assume "length (stringify ind JNull) \<le> f"
    then obtain f' where "f = Suc f'" by (cases f) (auto simp: js_def)
    then show "parse_value f (stringify ind JNull @ rest) = Inr (JNull, rest)"
      by (simp add: parse_value_lit del: parse_value.simps)
  qed
next
  case (JBool b)
  show ?case unfolding roundtrips_def
  proof (intro allI impI)
    fix ind f rest assume "length (stringify ind (JBool b)) \<le> f"
    then obtain f' where "f = Suc f'" by (cases f; cases b) (auto simp: js_def)
    then show "parse_value f (stringify ind (JBool b) @ rest) = Inr (JBool b, rest)"
      by (cases b) (simp_all add: parse_value_lit del: parse_value.simps)
  qed
next
  case (JNum i)
  show ?case unfolding roundtrips_def
  proof (intro allI impI)
    fix ind f rest assume l: "length (stringify ind (JNum i)) \<le> f" and d: "delim rest"
    from l obtain f' where "f = Suc f'" using int_to_string_ne [of i] by (cases f) auto
    then show "parse_value f (stringify ind (JNum i) @ rest) = Inr (JNum i, rest)"
      using parse_value_num [OF d] by (simp del: parse_value.simps)
  qed
next
  case (JDec m d)
  then show ?case by simp
next
  case (JStr s)
  show ?case unfolding roundtrips_def
  proof (intro allI impI)
    fix ind f rest assume "length (stringify ind (JStr s)) \<le> f"
    then obtain f' where "f = Suc f'" by (cases f) (auto simp: quote_json_def)
    then show "parse_value f (stringify ind (JStr s) @ rest) = Inr (JStr s, rest)"
      by (simp add: parse_value_str del: parse_value.simps)
  qed
next
  case (JArr vs)
  then have sub: "\<forall>v \<in> set vs. canonical_json v \<and> roundtrips v" by simp
  show ?case unfolding roundtrips_def
  proof (intro allI impI)
    fix ind f rest assume l: "length (stringify ind (JArr vs)) \<le> f"
    show "parse_value f (stringify ind (JArr vs) @ rest) = Inr (JArr vs, rest)"
    proof (cases "vs = []")
      case True
      with l obtain f' where "f = Suc f'" by (cases f) auto
      with True show ?thesis using parse_value_empty(1) by (simp del: parse_value.simps)
    next
      case False
      then show ?thesis using sub l by (rule parse_value_array)
    qed
  qed
next
  case (JObj ms)
  have sub: "\<forall>m \<in> set ms. canonical_json (snd m) \<and> roundtrips (snd m)"
  proof
    fix m assume m: "m \<in> set ms"
    then have c: "canonical_json (snd m)" using JObj.prems by simp
    have "snd m \<in> Basic_BNFs.snds m" by (cases m) simp
    from JObj.IH [OF m this c] c show "canonical_json (snd m) \<and> roundtrips (snd m)" by simp
  qed
  have d: "distinct (map fst ms)" and a: "\<forall>m \<in> set ms. \<not> is_array_index (fst m)"
    using JObj.prems by simp_all
  show ?case unfolding roundtrips_def
  proof (intro allI impI)
    fix ind f rest assume l: "length (stringify ind (JObj ms)) \<le> f"
    show "parse_value f (stringify ind (JObj ms) @ rest) = Inr (JObj ms, rest)"
    proof (cases "ms = []")
      case True
      with l obtain f' where "f = Suc f'" by (cases f) auto
      with True show ?thesis using parse_value_empty(2) by (simp del: parse_value.simps)
    next
      case False
      then show ?thesis using sub d a l by (rule parse_value_object)
    qed
  qed
qed

theorem JSON_parse_stringify:
  assumes "canonical_json v"
  shows "JSON_parse (JSON_stringify v) = Inr v"
proof -
  have "roundtrips v" using assms by (rule canonical_roundtrips)
  then have "length (stringify 0 v) \<le> 2 * length (stringify 0 v) + 2 \<longrightarrow> delim [] \<longrightarrow>
      parse_value (2 * length (stringify 0 v) + 2) (stringify 0 v @ []) = Inr (v, [])"
    unfolding roundtrips_def by blast
  then have "parse_value (2 * length (stringify 0 v) + 2) (stringify 0 v) = Inr (v, [])"
    by (simp add: delim_simps)
  then show ?thesis by (simp add: JSON_parse_def JSON_stringify_def skip_ws_def)
qed

lemmas parse_numeral =
  parse_value.simps(2) [of "pred_numeral k" for k, folded numeral_eq_Suc]
  parse_elements.simps(2) [of "pred_numeral k" for k, folded numeral_eq_Suc]
  parse_members.simps(2) [of "pred_numeral k" for k, folded numeral_eq_Suc]
  parse_value.simps(2) [of 0, folded One_nat_def]
  parse_elements.simps(2) [of 0, folded One_nat_def]
  parse_members.simps(2) [of 0, folded One_nat_def]
  strip_zeros.simps(2) [of _ "pred_numeral k" for k, folded numeral_eq_Suc]
  strip_zeros.simps(2) [of _ 0, folded One_nat_def]

lemmas parse_defs = JSON_parse_def skip_ws_def is_json_ws_def js_def parse_number_def make_number_def
  number_int_def number_frac_def number_exp_def is_digit_def digits_val_def Let_def json_char_defs
  cons_result_def unescape_def is_hex_def radix_digit_def radix_val_def make_object_def
  define_property_def is_array_index_def

lemmas stringify_defs = JSON_stringify_def quote_json_def int_to_string_def nat_digits.simps
  indent_def json_char_defs js_def hex4_def hex_digit_def is_high_surrogate_def
  is_low_surrogate_def dec_to_string_def Let_def

lemma not_index_letter: "k \<noteq> [] \<Longrightarrow> \<not> is_digit (hd k) \<Longrightarrow> \<not> is_array_index k"
  by (cases k) (auto simp: is_array_index_def)

lemma canonical_numstr: "canonical_json (numstr_json v)"
  by (cases v) (simp_all add: numstr_json_def)

lemma canonical_answer: "canonical_json (answer_json a)"
  by (simp add: answer_json_def canonical_numstr not_index_letter js_def is_digit_def)

lemma canonical_field: "canonical_json (field_json f)"
  by (cases "answerConfig f")
     (simp_all add: field_json_def canonical_numstr canonical_answer not_index_letter js_def
        is_digit_def)

lemma canonical_config: "canonical_json (config_json config)"
  by (simp add: config_json_def canonical_field)

lemma length_skip_ws: "length (skip_ws s) \<le> length s"
  by (simp add: skip_ws_def length_dropWhile_le)

lemma skip_ws_Cons_length: "skip_ws s = c # cs \<Longrightarrow> length cs < length s"
  using length_skip_ws [of s] by simp

lemma cons_result_Inr:
  "cons_result c res = Inr (k, r) \<Longrightarrow> \<exists>k'. res = Inr (k', r)"
  by (auto simp: cons_result_def split: sum.splits)

lemma parse_chars_length: "parse_chars s = Inr (k, r) \<Longrightarrow> length r < length s"
proof (induction s arbitrary: k rule: length_induct)
  case (1 s)
  show ?case
  proof (cases s)
    case Nil
    with "1.prems" show ?thesis by simp
  next
    case (Cons c cs)
    note ih = "1.IH" [rule_format]
    show ?thesis
    proof (cases "c = DQUOTE")
      case True
      with "1.prems" Cons show ?thesis by simp
    next
      case nq: False
      show ?thesis
      proof (cases "c = BACKSLASH")
        case True
        show ?thesis
        proof (cases cs)
          case Nil
          with "1.prems" Cons nq True show ?thesis by simp
        next
          case (Cons e r')
          show ?thesis
          proof (cases "e = 0x75")
            case True
            with "1.prems" \<open>s = c # cs\<close> Cons nq \<open>c = BACKSLASH\<close>
            have "\<exists>k'. parse_chars (drop 4 r') = Inr (k', r)"
              by (auto split: if_splits dest: cons_result_Inr)
            then obtain k' where "parse_chars (drop 4 r') = Inr (k', r)" by blast
            moreover have "length (drop 4 r') < length s" using \<open>s = c # cs\<close> Cons by simp
            ultimately have "length r < length (drop 4 r')" using ih by blast
            then show ?thesis using \<open>s = c # cs\<close> Cons by simp
          next
            case False
            with "1.prems" \<open>s = c # cs\<close> Cons nq \<open>c = BACKSLASH\<close>
            have "\<exists>k'. parse_chars r' = Inr (k', r)"
              by (auto split: option.splits dest: cons_result_Inr)
            then obtain k' where "parse_chars r' = Inr (k', r)" by blast
            from ih [OF _ this] \<open>s = c # cs\<close> Cons show ?thesis by simp
          qed
        qed
      next
        case False
        with "1.prems" Cons nq have "\<exists>k'. parse_chars cs = Inr (k', r)"
          by (auto split: if_splits dest: cons_result_Inr)
        then obtain k' where "parse_chars cs = Inr (k', r)" by blast
        from ih [OF _ this] Cons show ?thesis by simp
      qed
    qed
  qed
qed

lemma number_int_length: "number_int s = (ip, r) \<Longrightarrow> length r \<le> length s"
  by (auto simp: number_int_def length_dropWhile_le split: if_splits)

lemma number_frac_length: "number_frac s = Some (fp, r) \<Longrightarrow> length r \<le> length s"
proof -
  assume a: "number_frac s = Some (fp, r)"
  have "length (dropWhile is_digit (tl s)) \<le> length (tl s)" by (rule length_dropWhile_le)
  with a show ?thesis by (auto simp: number_frac_def split: if_splits)
qed

lemma number_exp_length: "number_exp s = Some (e, r) \<Longrightarrow> length r \<le> length s"
proof -
  assume a: "number_exp s = Some (e, r)"
  have 1: "length (dropWhile is_digit (tl s)) \<le> length (tl s)" by (rule length_dropWhile_le)
  have 2: "length (dropWhile is_digit (tl (tl s))) \<le> length (tl (tl s))" by (rule length_dropWhile_le)
  from a 1 2 show ?thesis
    by (auto simp: number_exp_def Let_def split: if_splits)
qed

lemma parse_number_length: "parse_number s = Inr (v, r) \<Longrightarrow> length r \<le> length s"
proof -
  assume a: "parse_number s = Inr (v, r)"
  let ?s1 = "if s \<noteq> [] \<and> hd s = 0x2D then tl s else s"
  obtain ip r1 where i: "number_int ?s1 = (ip, r1)" by (cases "number_int ?s1")
  from a i obtain fp r2 where fr: "number_frac r1 = Some (fp, r2)"
    by (auto simp: parse_number_def Let_def split: if_splits option.splits)
  from a i fr obtain e where ex: "number_exp r2 = Some (e, r)"
    by (auto simp: parse_number_def Let_def split: if_splits option.splits)
  have "length ?s1 \<le> length s" by simp
  with number_int_length [OF i] number_frac_length [OF fr] number_exp_length [OF ex]
  show ?thesis by linarith
qed

lemma shrinks_value:
  assumes ih: "shrinks f" and pv: "parse_value (Suc f) s = Inr (v, r)"
  shows "length r \<le> length s"
proof -
  obtain c cs where sk: "skip_ws s = c # cs" using pv by (cases "skip_ws s") simp_all
  have len: "Suc (length cs) \<le> length s" using length_skip_ws [of s] sk by simp
  consider (obj) "c = LBRACE" | (arr) "c \<noteq> LBRACE" "c = LBRACKET"
    | (str) "c \<noteq> LBRACE" "c \<noteq> LBRACKET" "c = DQUOTE"
    | (num) "c \<noteq> LBRACE" "c \<noteq> LBRACKET" "c \<noteq> DQUOTE" "c = 0x2D \<or> is_digit c"
    | (lit) "c \<noteq> LBRACE" "c \<noteq> LBRACKET" "c \<noteq> DQUOTE" "\<not> (c = 0x2D \<or> is_digit c)"
    by blast
  then show ?thesis
  proof cases
    case obj
    obtain d ds where sk2: "skip_ws cs = d # ds" using pv sk obj by (cases "skip_ws cs") simp_all
    have len2: "Suc (length ds) \<le> length cs" using length_skip_ws [of cs] sk2 by simp
    show ?thesis
    proof (cases "d = RBRACE")
      case True
      with pv sk obj sk2 have "r = ds" by simp
      with len len2 show ?thesis by simp
    next
      case False
      with pv sk obj sk2 obtain ms where "parse_members f (d # ds) = Inr (ms, r)"
        by (auto split: sum.splits)
      with ih have "length r \<le> length (d # ds)" unfolding shrinks_def by blast
      with len len2 show ?thesis by simp
    qed
  next
    case arr
    obtain d ds where sk2: "skip_ws cs = d # ds" using pv sk arr by (cases "skip_ws cs") simp_all
    have len2: "Suc (length ds) \<le> length cs" using length_skip_ws [of cs] sk2 by simp
    show ?thesis
    proof (cases "d = RBRACKET")
      case True
      with pv sk arr sk2 have "r = ds" by simp
      with len len2 show ?thesis by simp
    next
      case False
      with pv sk arr sk2 obtain vs where "parse_elements f (d # ds) = Inr (vs, r)"
        by (auto split: sum.splits)
      with ih have "length r \<le> length (d # ds)" unfolding shrinks_def by blast
      with len len2 show ?thesis by simp
    qed
  next
    case str
    with pv sk obtain k where "parse_chars cs = Inr (k, r)" by (auto split: sum.splits)
    from parse_chars_length [OF this] len show ?thesis by simp
  next
    case num
    with pv sk have "parse_number (c # cs) = Inr (v, r)" by auto
    from parse_number_length [OF this] len show ?thesis by simp
  next
    case lit
    with pv sk have "r = drop 4 (c # cs) \<or> r = drop 5 (c # cs)"
      by (auto split: if_splits)
    with len show ?thesis by auto
  qed
qed

lemma shrinks_elements:
  assumes ih: "shrinks f" and pe: "parse_elements (Suc f) s = Inr (vs, r)"
  shows "length r \<le> length s"
proof -
  from pe obtain v r1 where pv: "parse_value f s = Inr (v, r1)"
    by (auto split: sum.splits)
  with ih have l1: "length r1 \<le> length s" unfolding shrinks_def by blast
  obtain c cs where sk: "skip_ws r1 = c # cs" using pe pv by (cases "skip_ws r1") simp_all
  have l2: "Suc (length cs) \<le> length r1" using length_skip_ws [of r1] sk by simp
  show ?thesis
  proof (cases "c = COMMA")
    case True
    with pe pv sk obtain ws where "parse_elements f cs = Inr (ws, r)"
      by (auto split: sum.splits)
    with ih have "length r \<le> length cs" unfolding shrinks_def by blast
    with l1 l2 show ?thesis by simp
  next
    case False
    with pe pv sk have "r = cs" by (auto split: if_splits)
    with l1 l2 show ?thesis by simp
  qed
qed

lemma shrinks_members:
  assumes ih: "shrinks f" and pm: "parse_members (Suc f) s = Inr (ms, r)"
  shows "length r \<le> length s"
proof -
  obtain q s1 where sk: "skip_ws s = q # s1" using pm by (cases "skip_ws s") simp_all
  have l0: "Suc (length s1) \<le> length s" using length_skip_ws [of s] sk by simp
  have q: "q = DQUOTE" using pm sk by (auto split: if_splits)
  from pm sk q obtain k s2 where pc: "parse_chars s1 = Inr (k, s2)"
    by (auto split: sum.splits)
  have l1: "length s2 < length s1" using pc by (rule parse_chars_length)
  obtain c s3 where sk2: "skip_ws s2 = c # s3" using pm sk q pc by (cases "skip_ws s2") simp_all
  have l2: "Suc (length s3) \<le> length s2" using length_skip_ws [of s2] sk2 by simp
  have c: "c = COLON" using pm sk q pc sk2 by (auto split: if_splits)
  from pm sk q pc sk2 c obtain v s4 where pv: "parse_value f s3 = Inr (v, s4)"
    by (auto split: sum.splits)
  with ih have l3: "length s4 \<le> length s3" unfolding shrinks_def by blast
  obtain c' s5 where sk3: "skip_ws s4 = c' # s5"
    using pm sk q pc sk2 c pv by (cases "skip_ws s4") simp_all
  have l4: "Suc (length s5) \<le> length s4" using length_skip_ws [of s4] sk3 by simp
  show ?thesis
  proof (cases "c' = COMMA")
    case True
    with pm sk q pc sk2 c pv sk3 obtain ws where "parse_members f s5 = Inr (ws, r)"
      by (auto split: sum.splits)
    with ih have "length r \<le> length s5" unfolding shrinks_def by blast
    with l0 l1 l2 l3 l4 show ?thesis by simp
  next
    case False
    with pm sk q pc sk2 c pv sk3 have "r = s5" by (auto split: if_splits)
    with l0 l1 l2 l3 l4 show ?thesis by simp
  qed
qed

lemma shrinks_all: "shrinks f"
proof (induction f)
  case 0
  show ?case by (simp add: shrinks_def)
next
  case (Suc f)
  show ?case
    unfolding shrinks_def
    using shrinks_value [OF Suc] shrinks_elements [OF Suc] shrinks_members [OF Suc]
    by blast
qed

lemma cons_result_fuel: "cons_result c res = Inl OutOfFuel \<Longrightarrow> res = Inl OutOfFuel"
  by (auto simp: cons_result_def split: sum.splits)

lemma cons_result_not_fuel: "res \<noteq> Inl OutOfFuel \<Longrightarrow> cons_result c res \<noteq> Inl OutOfFuel"
  by (auto simp: cons_result_def split: sum.splits)

lemma parse_chars_fuel: "parse_chars s \<noteq> Inl OutOfFuel"
proof (induction s rule: parse_chars.induct)
  case 1
  show ?case by simp
next
  case (2 c cs)
  show ?case
  proof (cases "c = DQUOTE")
    case True
    then show ?thesis by simp
  next
    case nq: False
    show ?thesis
    proof (cases "c = BACKSLASH")
      case True
      show ?thesis
      proof (cases cs)
        case Nil
        with nq True show ?thesis by simp
      next
        case (Cons e r)
        show ?thesis
        proof (cases "e = 0x75")
          case u: True
          show ?thesis
          proof (cases "4 \<le> length r \<and> list_all is_hex (take 4 r)")
            case h: True
            from "2.IH"(1) [OF nq True Cons u h]
            have "cons_result (radix_val 16 (take 4 r)) (parse_chars (drop 4 r)) \<noteq> Inl OutOfFuel"
              by (rule cons_result_not_fuel)
            with nq True Cons u h show ?thesis by simp
          next
            case False
            with nq True Cons u show ?thesis by auto
          qed
        next
          case nu: False
          show ?thesis
          proof (cases "unescape e")
            case None
            with nq True Cons nu show ?thesis by simp
          next
            case (Some ch)
            from "2.IH"(2) [OF nq True Cons nu Some]
            have "cons_result ch (parse_chars r) \<noteq> Inl OutOfFuel"
              by (rule cons_result_not_fuel)
            with nq True Cons nu Some show ?thesis by simp
          qed
        qed
      qed
    next
      case nb: False
      show ?thesis
      proof (cases "c < 0x20")
        case True
        with nq nb show ?thesis by simp
      next
        case False
        from "2.IH"(3) [OF nq nb False]
        have "cons_result c (parse_chars cs) \<noteq> Inl OutOfFuel"
          by (rule cons_result_not_fuel)
        with nq nb False show ?thesis by simp
      qed
    qed
  qed
qed

lemma parse_number_fuel: "parse_number s \<noteq> Inl OutOfFuel"
  by (auto simp: parse_number_def Let_def split: prod.splits option.splits if_splits)

lemma enough_value:
  assumes ih: "enough f" and b: "2 * length s + 2 \<le> Suc f"
  shows "parse_value (Suc f) s \<noteq> Inl OutOfFuel"
proof
  assume pv: "parse_value (Suc f) s = Inl OutOfFuel"
  obtain c cs where sk: "skip_ws s = c # cs" using pv by (cases "skip_ws s") simp_all
  have len: "Suc (length cs) \<le> length s" using length_skip_ws [of s] sk by simp
  consider (obj) "c = LBRACE" | (arr) "c \<noteq> LBRACE" "c = LBRACKET"
    | (str) "c \<noteq> LBRACE" "c \<noteq> LBRACKET" "c = DQUOTE"
    | (num) "c \<noteq> LBRACE" "c \<noteq> LBRACKET" "c \<noteq> DQUOTE" "c = 0x2D \<or> is_digit c"
    | (lit) "c \<noteq> LBRACE" "c \<noteq> LBRACKET" "c \<noteq> DQUOTE" "\<not> (c = 0x2D \<or> is_digit c)"
    by blast
  then show False
  proof cases
    case obj
    obtain d ds where sk2: "skip_ws cs = d # ds" using pv sk obj by (cases "skip_ws cs") simp_all
    have len2: "Suc (length ds) \<le> length cs" using length_skip_ws [of cs] sk2 by simp
    from pv sk obj sk2 have "parse_members f (d # ds) = Inl OutOfFuel"
      by (auto split: if_splits sum.splits)
    moreover have "2 * length (d # ds) + 3 \<le> f" using b len len2 by simp
    ultimately show False using ih unfolding enough_def by blast
  next
    case arr
    obtain d ds where sk2: "skip_ws cs = d # ds" using pv sk arr by (cases "skip_ws cs") simp_all
    have len2: "Suc (length ds) \<le> length cs" using length_skip_ws [of cs] sk2 by simp
    from pv sk arr sk2 have "parse_elements f (d # ds) = Inl OutOfFuel"
      by (auto split: if_splits sum.splits)
    moreover have "2 * length (d # ds) + 3 \<le> f" using b len len2 by simp
    ultimately show False using ih unfolding enough_def by blast
  next
    case str
    with pv sk have "parse_chars cs = Inl OutOfFuel" by (auto split: sum.splits)
    then show False using parse_chars_fuel by blast
  next
    case num
    with pv sk have "parse_number (c # cs) = Inl OutOfFuel" by auto
    then show False using parse_number_fuel by blast
  next
    case lit
    with pv sk show False by (auto split: if_splits)
  qed
qed

lemma enough_elements:
  assumes ih: "enough f" and b: "2 * length s + 3 \<le> Suc f"
  shows "parse_elements (Suc f) s \<noteq> Inl OutOfFuel"
proof
  assume pe: "parse_elements (Suc f) s = Inl OutOfFuel"
  have "2 * length s + 2 \<le> f" using b by simp
  with ih have nv: "parse_value f s \<noteq> Inl OutOfFuel" unfolding enough_def by blast
  with pe obtain v r1 where pv: "parse_value f s = Inr (v, r1)"
    by (auto split: sum.splits)
  have l1: "length r1 \<le> length s" using shrinks_all [of f] pv unfolding shrinks_def by blast
  obtain c cs where sk: "skip_ws r1 = c # cs" using pe pv by (cases "skip_ws r1") simp_all
  have l2: "Suc (length cs) \<le> length r1" using length_skip_ws [of r1] sk by simp
  from pe pv sk have "parse_elements f cs = Inl OutOfFuel"
    by (auto split: if_splits sum.splits)
  moreover have "2 * length cs + 3 \<le> f" using b l1 l2 by simp
  ultimately show False using ih unfolding enough_def by blast
qed

lemma enough_members:
  assumes ih: "enough f" and b: "2 * length s + 3 \<le> Suc f"
  shows "parse_members (Suc f) s \<noteq> Inl OutOfFuel"
proof
  assume pm: "parse_members (Suc f) s = Inl OutOfFuel"
  obtain q s1 where sk: "skip_ws s = q # s1" using pm by (cases "skip_ws s") simp_all
  have l0: "Suc (length s1) \<le> length s" using length_skip_ws [of s] sk by simp
  have q: "q = DQUOTE" using pm sk by (auto split: if_splits)
  from pm sk q parse_chars_fuel [of s1] obtain k s2 where pc: "parse_chars s1 = Inr (k, s2)"
    by (auto split: sum.splits)
  have l1: "length s2 < length s1" using pc by (rule parse_chars_length)
  obtain c s3 where sk2: "skip_ws s2 = c # s3" using pm sk q pc by (cases "skip_ws s2") simp_all
  have l2: "Suc (length s3) \<le> length s2" using length_skip_ws [of s2] sk2 by simp
  have c: "c = COLON" using pm sk q pc sk2 by (auto split: if_splits)
  have "2 * length s3 + 2 \<le> f" using b l0 l1 l2 by simp
  with ih have "parse_value f s3 \<noteq> Inl OutOfFuel" unfolding enough_def by blast
  with pm sk q pc sk2 c obtain v s4 where pv: "parse_value f s3 = Inr (v, s4)"
    by (auto split: sum.splits)
  have l3: "length s4 \<le> length s3" using shrinks_all [of f] pv unfolding shrinks_def by blast
  obtain c' s5 where sk3: "skip_ws s4 = c' # s5"
    using pm sk q pc sk2 c pv by (cases "skip_ws s4") simp_all
  have l4: "Suc (length s5) \<le> length s4" using length_skip_ws [of s4] sk3 by simp
  from pm sk q pc sk2 c pv sk3 have "parse_members f s5 = Inl OutOfFuel"
    by (auto split: if_splits sum.splits)
  moreover have "2 * length s5 + 3 \<le> f" using b l0 l1 l2 l3 l4 by simp
  ultimately show False using ih unfolding enough_def by blast
qed

lemma enough_all: "enough f"
proof (induction f)
  case 0
  show ?case by (simp add: enough_def)
next
  case (Suc f)
  show ?case
    unfolding enough_def
    using enough_value [OF Suc] enough_elements [OF Suc] enough_members [OF Suc]
    by blast
qed

lemma JSON_parse_fuel: "JSON_parse t \<noteq> Inl OutOfFuel"
proof -
  have "parse_value (2 * length t + 2) t \<noteq> Inl OutOfFuel"
    using enough_all [of "2 * length t + 2"] unfolding enough_def by blast
  then show ?thesis by (auto simp: JSON_parse_def split: sum.splits)
qed

lemma inj_numstr_json: "inj numstr_json"
  by (rule injI) (auto simp: numstr_json_def split: numstr.splits)

lemma type_name_inj: "type_name a = type_name b \<Longrightarrow> a = b"
  by (cases a; cases b) (simp_all add: type_name_def js_def)

lemma mode_name_inj: "mode_name a = mode_name b \<Longrightarrow> a = b"
  by (cases a; cases b) (simp_all add: mode_name_def js_def)

lemma answer_json_inj: "answer_json a = answer_json b \<Longrightarrow> a = b"
proof -
  assume e: "answer_json a = answer_json b"
  then have "numstr_json (sourceKeyIdx a) = numstr_json (sourceKeyIdx b)"
    and "mode_name (outputMode a) = mode_name (outputMode b)"
    and "map numstr_json (optionIndices a) = map numstr_json (optionIndices b)"
    by (simp_all add: answer_json_def)
  then have "sourceKeyIdx a = sourceKeyIdx b" "outputMode a = outputMode b"
    "optionIndices a = optionIndices b"
    using inj_numstr_json by (auto dest: injD mode_name_inj simp: inj_map_eq_map)
  then show ?thesis by simp
qed

lemma field_json_inj: "field_json f = field_json g \<Longrightarrow> f = g"
proof -
  assume e: "field_json f = field_json g"
  then have 1: "fid f = fid g" "headerName f = headerName g"
    "type_name (ftype f) = type_name (ftype g)"
    "numstr_json (sourceValue f) = numstr_json (sourceValue g)"
    by (simp_all add: field_json_def)
  from e have 2: "answerConfig f = answerConfig g"
    by (cases "answerConfig f"; cases "answerConfig g")
       (auto simp: field_json_def dest: answer_json_inj)
  from 1 have "ftype f = ftype g" "sourceValue f = sourceValue g"
    using inj_numstr_json by (auto dest: injD type_name_inj)
  with 1 2 show ?thesis by simp
qed

lemma config_json_inj: "config_json c = config_json c' \<Longrightarrow> c = c'"
proof -
  have "inj field_json" by (rule injI) (rule field_json_inj)
  then show "config_json c = config_json c' \<Longrightarrow> c = c'"
    by (simp add: config_json_def inj_map_eq_map)
qed

text \<open>
  C8: for every configuration built from the four kinds of field (every list of
  descriptors, an answer field with set and unset option slots among them), importing the
  text that the export writes stores a value equal to the configuration's, with no error;
  and the value determines the configuration, its order and all its attributes.
\<close>

theorem config_roundtrip:
  "importConfig (exportCurrentConfig (config_json config)) previous = (config_json config, None) \<and>
   (config_json config = config_json config' \<longrightarrow> config = config')"
  by (simp add: importConfig_def exportCurrentConfig_def JSON_parse_stringify [OF canonical_config]
        config_json_inj)

theorem config_roundtrip_witness:
  "importConfig (exportCurrentConfig (config_json example_config)) JNull
     = (config_json example_config, None) \<and>
   exportCurrentConfig (config_json (drop 3 example_config)) =
     join [LF]
       [js ''['',
        js ''  {'',
        js ''    \"id\": \"f_ans\",'',
        js ''    \"headerName\": \"ans\",'',
        js ''    \"type\": \"smart_answer\",'',
        js ''    \"sourceValue\": \"\",'',
        js ''    \"answerConfig\": {'',
        js ''      \"sourceKeyIdx\": \"5\",'',
        js ''      \"outputMode\": \"content\",'',
        js ''      \"optionIndices\": ['',
        js ''        1,'',
        js ''        \"\",'',
        js ''        -3,'',
        js ''        \"4\"'',
        js ''      ]'',
        js ''    }'',
        js ''  }'',
        js '']'']"
proof -
  have t: "exportCurrentConfig (config_json (drop 3 example_config)) =
     join [LF]
       [js ''['',
        js ''  {'',
        js ''    \"id\": \"f_ans\",'',
        js ''    \"headerName\": \"ans\",'',
        js ''    \"type\": \"smart_answer\",'',
        js ''    \"sourceValue\": \"\",'',
        js ''    \"answerConfig\": {'',
        js ''      \"sourceKeyIdx\": \"5\",'',
        js ''      \"outputMode\": \"content\",'',
        js ''      \"optionIndices\": ['',
        js ''        1,'',
        js ''        \"\",'',
        js ''        -3,'',
        js ''        \"4\"'',
        js ''      ]'',
        js ''    }'',
        js ''  }'',
        js '']'']"
    by (simp add: example_config_def exportCurrentConfig_def config_json_def field_json_def
          answer_json_def numstr_json_def type_name_def mode_name_def stringify_defs)
  from config_roundtrip [of example_config JNull example_config] t
  show ?thesis by simp
qed

text \<open>
  C3 fails on the code: the text \<open>{}\<close> is a JSON document and not a configuration (a
  configuration is an array), yet \<open>importConfig\<close> raises no error and replaces the
  configuration by the empty object. Only a text that \<open>JSON.parse\<close> rejects is refused.
\<close>

theorem import_non_configuration:
  "importConfig (js ''{}'') previous = (JObj [], None) \<and> (\<forall>config. config_json config \<noteq> JObj [])"
  by (simp add: importConfig_def parse_defs parse_numeral config_json_def)

lemma import_syntax_error:
  "JSON_parse t = Inl e \<Longrightarrow> importConfig t previous = (previous, Some ConfigParseError)"
  by (simp add: importConfig_def)

end
